theory Spec2Isabelle
  imports Complex_Main "HOL-Library.Product_Lexorder"
begin

section \<open>Numbers, arrays and errors\<close>

text \<open>
  The notebooks define \<^verbatim>\<open>inversionSampling(x, y, n)\<close>, \<^verbatim>\<open>importanceSampling(x, f, w, n)\<close>
  and \<^verbatim>\<open>importanceSampling(x, y, f, w, n)\<close> and call them on numpy arrays of float64.

  A float64 is modelled as a real number or one of the three IEEE special values:
  arithmetic on finite values is exact (rounding, overflow and underflow are not
  modelled, and zero has no sign: it is +0.0), and the special values follow IEEE 754,
  which is what numpy does where Python itself would raise ZeroDivisionError (numpy warns
  and goes on). An array is a list.

  The code rounds, and its sums and differences overflow to an infinity. The theorems
  of C1, C2, C4, C5 and C6, whose subject depends on that, are stated so that they hold
  of the code in float64 as they hold here: the entries of a grid are bounded by 2^1022
  and the sum of a density by 2^1023, which keeps every range and every running sum
  finite, and the conclusion is about the exception that is raised, the number of
  doubles consumed, the operations that are composed, the order of two values or whether
  a value is finite, none of which rounding changes. Where the exact arithmetic gives
  more than float64 does, the text says so. The lemmas about tables of reals
  (\<open>cumulative_table_real\<close>, \<open>interp_sorted\<close>, \<open>trapz_real\<close>, \<open>importanceSampling_real\<close> and
  the like) are lemmas of the exact arithmetic.

  numpy and scipy are libraries, not code of the notebooks. Each routine the samplers
  call is modelled after its source in numpy (the Python of \<^verbatim>\<open>trapz\<close> and \<^verbatim>\<open>diff\<close>, the C
  of \<^verbatim>\<open>arr_interp\<close> and \<^verbatim>\<open>binary_search_with_guess\<close>, the Cython of \<^verbatim>\<open>uniform\<close>), with
  the exceptions it raises as values of \<open>error\<close>.
\<close>

datatype npfloat = Fin real | PInf | NInf | NaN

datatype error = ValueError | IndexError | OverflowError

definition isnan :: "npfloat \<Rightarrow> bool" where
  "isnan a = (a = NaN)"

definition isfinite :: "npfloat \<Rightarrow> bool" where
  "isfinite a = (case a of Fin _ \<Rightarrow> True | _ \<Rightarrow> False)"

fun fneg :: "npfloat \<Rightarrow> npfloat" where
  "fneg (Fin a) = Fin (- a)"
| "fneg PInf = NInf"
| "fneg NInf = PInf"
| "fneg NaN = NaN"

fun fadd :: "npfloat \<Rightarrow> npfloat \<Rightarrow> npfloat" where
  "fadd (Fin a) (Fin b) = Fin (a + b)"
| "fadd NaN _ = NaN"
| "fadd _ NaN = NaN"
| "fadd PInf NInf = NaN"
| "fadd NInf PInf = NaN"
| "fadd PInf _ = PInf"
| "fadd _ PInf = PInf"
| "fadd NInf _ = NInf"
| "fadd _ NInf = NInf"

definition fsub :: "npfloat \<Rightarrow> npfloat \<Rightarrow> npfloat" where
  "fsub a b = fadd a (fneg b)"

text \<open>The sign of a value that is not NaN: -1, 0 or 1.\<close>

fun fsign :: "npfloat \<Rightarrow> int" where
  "fsign (Fin a) = (if a < 0 then - 1 else if a = 0 then 0 else 1)"
| "fsign PInf = 1"
| "fsign NInf = - 1"
| "fsign NaN = 0"

definition signed_inf :: "int \<Rightarrow> npfloat" where
  "signed_inf s = (if s = 0 then NaN else if 0 < s then PInf else NInf)"

fun fmul :: "npfloat \<Rightarrow> npfloat \<Rightarrow> npfloat" where
  "fmul (Fin a) (Fin b) = Fin (a * b)"
| "fmul NaN _ = NaN"
| "fmul _ NaN = NaN"
| "fmul a b = signed_inf (fsign a * fsign b)"

text \<open>
  Division: a finite value over zero is an infinity of the sign of the numerator, zero
  over zero and infinity over infinity are NaN.
\<close>

fun fdiv :: "npfloat \<Rightarrow> npfloat \<Rightarrow> npfloat" where
  "fdiv (Fin a) (Fin b) = (if b \<noteq> 0 then Fin (a / b) else signed_inf (fsign (Fin a)))"
| "fdiv NaN _ = NaN"
| "fdiv _ NaN = NaN"
| "fdiv (Fin a) _ = Fin 0"
| "fdiv a (Fin b) = signed_inf (fsign a * (if b < 0 then - 1 else 1))"
| "fdiv _ _ = NaN"

text \<open>Comparisons: every comparison with NaN is false.\<close>

fun flt :: "npfloat \<Rightarrow> npfloat \<Rightarrow> bool" where
  "flt (Fin a) (Fin b) = (a < b)"
| "flt NaN _ = False"
| "flt _ NaN = False"
| "flt _ NInf = False"
| "flt PInf _ = False"
| "flt _ _ = True"

definition feq :: "npfloat \<Rightarrow> npfloat \<Rightarrow> bool" where
  "feq a b = (a \<noteq> NaN \<and> a = b)"

definition fgt :: "npfloat \<Rightarrow> npfloat \<Rightarrow> bool" where
  "fgt a b = flt b a"

definition fge :: "npfloat \<Rightarrow> npfloat \<Rightarrow> bool" where
  "fge a b = (flt b a \<or> feq a b)"

definition fle :: "npfloat \<Rightarrow> npfloat \<Rightarrow> bool" where
  "fle a b = (flt a b \<or> feq a b)"

section \<open>The numpy operations the samplers call\<close>

subsection \<open>cumsum, indexing from the end, in-place division\<close>

text \<open>\<^verbatim>\<open>np.cumsum(y)\<close>: the running sums, in a new array.\<close>

fun cumsum_from :: "npfloat \<Rightarrow> npfloat list \<Rightarrow> npfloat list" where
  "cumsum_from acc [] = []"
| "cumsum_from acc (v # vs) = fadd acc v # cumsum_from (fadd acc v) vs"

definition cumsum :: "npfloat list \<Rightarrow> npfloat list" where
  "cumsum ys = (case ys of [] \<Rightarrow> [] | v # vs \<Rightarrow> v # cumsum_from v vs)"

text \<open>\<^verbatim>\<open>a[-1]\<close>: the last entry; IndexError on an empty array.\<close>

definition last_item :: "npfloat list \<Rightarrow> error + npfloat" where
  "last_item a = (if a = [] then Inl IndexError else Inr (last a))"

text \<open>\<^verbatim>\<open>a /= d\<close> for a scalar d: every entry divided by d.\<close>

definition idiv :: "npfloat list \<Rightarrow> npfloat \<Rightarrow> npfloat list" where
  "idiv a d = map (\<lambda>v. fdiv v d) a"

text \<open>
  The first two statements of \<^verbatim>\<open>inversionSampling\<close>:
  \<^verbatim>\<open>y1 = np.cumsum(y); y1 /= y1[-1]\<close>, the normalised cumulative table.
\<close>

definition cumulative_table :: "npfloat list \<Rightarrow> error + npfloat list" where
  "cumulative_table y =
     (let y1 = cumsum y in
      case last_item y1 of
        Inl e \<Rightarrow> Inl e
      | Inr d \<Rightarrow> Inr (idiv y1 d))"

subsection \<open>The random source\<close>

text \<open>
  \<^verbatim>\<open>np.random\<close> is the process-wide generator, seeded once (\<^verbatim>\<open>np.random.seed(42)\<close>).
  Its state is the stream of the doubles in [0, 1) it will produce and the number of
  doubles consumed so far. A call that raises leaves the state as it is at the raise.
\<close>

record rng =
  stream :: "nat \<Rightarrow> real"
  consumed :: nat

definition next_doubles :: "rng \<Rightarrow> nat \<Rightarrow> real list" where
  "next_doubles g n = map (\<lambda>i. stream g (consumed g + i)) [0..<n]"

definition random_sample :: "nat \<Rightarrow> rng \<Rightarrow> real list \<times> rng" where
  "random_sample n g = (next_doubles g n, g\<lparr>consumed := consumed g + n\<rparr>)"

text \<open>
  \<^verbatim>\<open>np.random.uniform(low, high, size)\<close>: OverflowError when \<^verbatim>\<open>high - low\<close> is not
  finite, ValueError for a negative size (both before any draw), else
  \<^verbatim>\<open>low + (high - low) * u\<close> for each of the next n doubles u (n is the size).
\<close>

definition uniform :: "npfloat \<Rightarrow> npfloat \<Rightarrow> int \<Rightarrow> rng \<Rightarrow> (error + npfloat list) \<times> rng" where
  "uniform low high n g =
     (let width = fsub high low in
      if \<not> isfinite width then (Inl OverflowError, g)
      else if n < 0 then (Inl ValueError, g)
      else
        (let (us, g') = random_sample (nat n) g
         in (Inr (map (\<lambda>u. fadd low (fmul width (Fin u))) us), g')))"

subsection \<open>interp\<close>

text \<open>
  \<^verbatim>\<open>np.interp(x, xp, fp)\<close> is numpy's compiled routine \<^verbatim>\<open>arr_interp\<close>. For each
  value it looks the bracket up with \<^verbatim>\<open>binary_search_with_guess\<close>, whose guess is the
  bracket of the previous value: a linear search in an array of at most 4 entries, else
  three probes around the guess and a bisection.
\<close>

function linear_search :: "npfloat \<Rightarrow> npfloat list \<Rightarrow> nat \<Rightarrow> nat" where
  "linear_search key arr i =
     (if i < length arr \<and> fge key (arr ! i) then linear_search key arr (i + 1) else i)"
  by pat_completeness auto
termination
  by (relation "measure (\<lambda>(key, arr, i). length arr - i)") auto

declare linear_search.simps [simp del]

function bisect :: "npfloat \<Rightarrow> npfloat list \<Rightarrow> nat \<Rightarrow> nat \<Rightarrow> nat" where
  "bisect key arr imin imax =
     (if imin < imax then
        (let imid = imin + (imax - imin) div 2 in
         if fge key (arr ! imid) then bisect key arr (imid + 1) imax
         else bisect key arr imin imid)
      else imin)"
  by pat_completeness auto
termination
  by (relation "measure (\<lambda>(key, arr, imin, imax). imax - imin)") auto

declare bisect.simps [simp del]

definition LIKELY_IN_CACHE_SIZE :: nat where
  "LIKELY_IN_CACHE_SIZE = 8"

definition binary_search_with_guess :: "npfloat \<Rightarrow> npfloat list \<Rightarrow> int \<Rightarrow> int" where
  "binary_search_with_guess key arr guess0 =
     (let len = length arr in
      if fgt key (arr ! (len - 1)) then int len
      else if flt key (arr ! 0) then - 1
      else if len \<le> 4 then int (linear_search key arr 1) - 1
      else
        (let guess1 = (if int len - 3 < guess0 then int len - 3 else guess0);
             guess = nat (if guess1 < 1 then 1 else guess1)
         in
           if flt key (arr ! guess) then
             (if flt key (arr ! (guess - 1)) then
                (let imax = guess - 1;
                     imin = (if LIKELY_IN_CACHE_SIZE < guess
                               \<and> fge key (arr ! (guess - LIKELY_IN_CACHE_SIZE))
                             then guess - LIKELY_IN_CACHE_SIZE else 0)
                 in int (bisect key arr imin imax) - 1)
              else int guess - 1)
           else if flt key (arr ! (guess + 1)) then int guess
           else if flt key (arr ! (guess + 2)) then int guess + 1
           else
             (let imin = guess + 2;
                  imax = (if guess + LIKELY_IN_CACHE_SIZE + 1 < len
                            \<and> flt key (arr ! (guess + LIKELY_IN_CACHE_SIZE))
                          then guess + LIKELY_IN_CACHE_SIZE else len)
              in int (bisect key arr imin imax) - 1)))"

text \<open>
  The value for one \<^verbatim>\<open>x_val\<close> once its bracket j is known. \<^verbatim>\<open>lval\<close> is \<^verbatim>\<open>fp[0]\<close> and
  \<^verbatim>\<open>rval\<close> is \<^verbatim>\<open>fp[-1]\<close>, since the notebooks pass neither \<^verbatim>\<open>left\<close> nor \<^verbatim>\<open>right\<close>.
  The slope is the same value whether numpy takes it from its table of slopes or
  computes it on the spot.
\<close>

definition interp_at :: "npfloat \<Rightarrow> npfloat list \<Rightarrow> npfloat list \<Rightarrow> int \<Rightarrow> npfloat" where
  "interp_at x_val dx dy j =
     (let lenxp = int (length dx) in
      if j = - 1 then dy ! 0
      else if j = lenxp then last dy
      else if j = lenxp - 1 then dy ! nat j
      else if feq (dx ! nat j) x_val then dy ! nat j
      else
        (let slope = fdiv (fsub (dy ! (nat j + 1)) (dy ! nat j))
                          (fsub (dx ! (nat j + 1)) (dx ! nat j));
             r = fadd (fmul slope (fsub x_val (dx ! nat j))) (dy ! nat j)
         in
           if isnan r then
             (let r2 = fadd (fmul slope (fsub x_val (dx ! (nat j + 1)))) (dy ! (nat j + 1))
              in if isnan r2 \<and> feq (dy ! nat j) (dy ! (nat j + 1)) then dy ! nat j else r2)
           else r))"

fun interp_loop :: "npfloat list \<Rightarrow> npfloat list \<Rightarrow> npfloat list \<Rightarrow> int \<Rightarrow> npfloat list" where
  "interp_loop [] dx dy j = []"
| "interp_loop (x_val # zs) dx dy j =
     (if isnan x_val then x_val # interp_loop zs dx dy j
      else
        (let j' = binary_search_with_guess x_val dx j
         in interp_at x_val dx dy j' # interp_loop zs dx dy j'))"

definition interp :: "npfloat list \<Rightarrow> npfloat list \<Rightarrow> npfloat list \<Rightarrow> error + npfloat list" where
  "interp z xp fp =
     (if length xp = 0 then Inl ValueError
      else if length fp \<noteq> length xp then Inl ValueError
      else if length xp = 1 then
        Inr (map (\<lambda>x_val. if flt x_val (xp ! 0) then fp ! 0
                          else if fgt x_val (xp ! 0) then last fp else fp ! 0) z)
      else Inr (interp_loop z xp fp 0))"

subsection \<open>argsort and indexing by an index array\<close>

text \<open>
  numpy sorts NaN last. \<^verbatim>\<open>np.argsort\<close> returns the indices that sort the array, and
  \<^verbatim>\<open>a[idx]\<close> gathers the entries of a at those indices into a new array. The default
  sort of numpy is not stable, so on ties \<^verbatim>\<open>idx\<close> may order equal values otherwise than
  here; \<^verbatim>\<open>xsample[idx]\<close> is the same array either way.
\<close>

fun sort_rank :: "npfloat \<Rightarrow> nat \<times> real" where
  "sort_rank NInf = (0, 0)"
| "sort_rank (Fin a) = (1, a)"
| "sort_rank PInf = (2, 0)"
| "sort_rank NaN = (3, 0)"

definition argsort :: "npfloat list \<Rightarrow> nat list" where
  "argsort a = map snd (sort_key (\<lambda>p. sort_rank (fst p)) (zip a [0..<length a]))"

definition take_idx :: "'a list \<Rightarrow> nat list \<Rightarrow> 'a list" where
  "take_idx a idx = map (\<lambda>i. a ! i) idx"

section \<open>The inversion sampler\<close>

text \<open>
  \<^verbatim>\<open>inversionSampling(x, y, n)\<close> of the inversion-sampling notebook. It returns
  \<^verbatim>\<open>xsample\<close>; the sorted \<^verbatim>\<open>ysample\<close> is computed and dropped.
\<close>

definition inversionSampling ::
  "npfloat list \<Rightarrow> npfloat list \<Rightarrow> int \<Rightarrow> rng \<Rightarrow> (error + npfloat list) \<times> rng" where
  "inversionSampling x y n g =
     (case cumulative_table y of
        Inl e \<Rightarrow> (Inl e, g)
      | Inr y1 \<Rightarrow>
          (case uniform (Fin 0) (Fin 1) n g of
             (Inl e, g') \<Rightarrow> (Inl e, g')
           | (Inr ysample, g') \<Rightarrow>
               (case interp ysample y1 x of
                  Inl e \<Rightarrow> (Inl e, g')
                | Inr xsample \<Rightarrow>
                    (let idx = argsort xsample;
                         xsample' = take_idx xsample idx;
                         ysample' = take_idx ysample idx
                     in (Inr xsample', g')))))"

section \<open>The importance samplers\<close>

subsection \<open>amin, amax, trapz and arithmetic on arrays\<close>

text \<open>
  \<^verbatim>\<open>np.amin\<close> and \<^verbatim>\<open>np.amax\<close>: ValueError on an empty array; a NaN entry makes the
  result NaN.
\<close>

definition fminimum :: "npfloat \<Rightarrow> npfloat \<Rightarrow> npfloat" where
  "fminimum a b = (if isnan a \<or> isnan b then NaN else if flt b a then b else a)"

definition fmaximum :: "npfloat \<Rightarrow> npfloat \<Rightarrow> npfloat" where
  "fmaximum a b = (if isnan a \<or> isnan b then NaN else if flt a b then b else a)"

definition amin :: "npfloat list \<Rightarrow> error + npfloat" where
  "amin a = (case a of [] \<Rightarrow> Inl ValueError | v # vs \<Rightarrow> Inr (foldl fminimum v vs))"

definition amax :: "npfloat list \<Rightarrow> error + npfloat" where
  "amax a = (case a of [] \<Rightarrow> Inl ValueError | v # vs \<Rightarrow> Inr (foldl fmaximum v vs))"

text \<open>
  An operator on two arrays: entry by entry when the lengths agree, an array of one
  entry is broadcast, any other pair of lengths is a ValueError.
\<close>

definition broadcast2 ::
  "(npfloat \<Rightarrow> npfloat \<Rightarrow> npfloat) \<Rightarrow> npfloat list \<Rightarrow> npfloat list \<Rightarrow> error + npfloat list" where
  "broadcast2 f a b =
     (if length a = length b then Inr (map2 f a b)
      else if length a = 1 then Inr (map (f (a ! 0)) b)
      else if length b = 1 then Inr (map (\<lambda>u. f u (b ! 0)) a)
      else Inl ValueError)"

text \<open>\<^verbatim>\<open>np.diff(a)\<close> is \<^verbatim>\<open>a[1:] - a[:-1]\<close>; \<^verbatim>\<open>.sum()\<close> of no entries is 0.\<close>

definition diff :: "npfloat list \<Rightarrow> npfloat list" where
  "diff a = map2 fsub (tl a) (butlast a)"

definition fsum :: "npfloat list \<Rightarrow> npfloat" where
  "fsum a = foldl fadd (Fin 0) a"

text \<open>
  \<^verbatim>\<open>scipy.integrate.trapz(y, x = x)\<close>, which is numpy's \<^verbatim>\<open>trapz\<close>:
  \<^verbatim>\<open>d = diff(x); (d * (y[1:] + y[:-1]) / 2.0).sum()\<close>.
\<close>

definition trapz :: "npfloat list \<Rightarrow> npfloat list \<Rightarrow> error + npfloat" where
  "trapz y x =
     (let d = diff x in
      case broadcast2 fadd (tl y) (butlast y) of
        Inl e \<Rightarrow> Inl e
      | Inr s \<Rightarrow>
          (case broadcast2 fmul d s of
             Inl e \<Rightarrow> Inl e
           | Inr p \<Rightarrow> Inr (fsum (map (\<lambda>v. fdiv v (Fin 2)) p))))"

subsection \<open>The two notebooks\<close>

text \<open>
  \<^verbatim>\<open>importanceSampling(x, f, w, n)\<close>. The weights are
  \<^verbatim>\<open>norm * np.interp(xsample, x, f) / np.interp(xsample, x, w)\<close>: the product is
  evaluated before the second interpolation. (\<^verbatim>\<open>norm\<close> is written nrm here.)
\<close>

definition importanceSampling ::
  "npfloat list \<Rightarrow> npfloat list \<Rightarrow> npfloat list \<Rightarrow> int \<Rightarrow> rng
     \<Rightarrow> (error + npfloat list \<times> npfloat list) \<times> rng" where
  "importanceSampling x f w n g =
     (case amin x of
        Inl e \<Rightarrow> (Inl e, g)
      | Inr xmin \<Rightarrow>
     (case amax x of
        Inl e \<Rightarrow> (Inl e, g)
      | Inr xmax \<Rightarrow>
     (case trapz w x of
        Inl e \<Rightarrow> (Inl e, g)
      | Inr nrm \<Rightarrow>
     (case uniform xmin xmax n g of
        (Inl e, g') \<Rightarrow> (Inl e, g')
      | (Inr xsample, g') \<Rightarrow>
     (case interp xsample x f of
        Inl e \<Rightarrow> (Inl e, g')
      | Inr fi \<Rightarrow>
     (let num = map (fmul nrm) fi in
      case interp xsample x w of
        Inl e \<Rightarrow> (Inl e, g')
      | Inr wi \<Rightarrow>
     (case broadcast2 fdiv num wi of
        Inl e \<Rightarrow> (Inl e, g')
      | Inr weights \<Rightarrow> (Inr (xsample, weights), g'))))))))"

text \<open>
  The variant of the other notebook, \<^verbatim>\<open>importanceSampling(x, y, f, w, n)\<close>, whose
  weights are \<^verbatim>\<open>norm * np.interp(xsample, x, y * w) / np.interp(xsample, x, w)\<close>.
\<close>

definition importanceSampling5 ::
  "npfloat list \<Rightarrow> npfloat list \<Rightarrow> npfloat list \<Rightarrow> npfloat list \<Rightarrow> int \<Rightarrow> rng
     \<Rightarrow> (error + npfloat list \<times> npfloat list) \<times> rng" where
  "importanceSampling5 x y f w n g =
     (case amin x of
        Inl e \<Rightarrow> (Inl e, g)
      | Inr xmin \<Rightarrow>
     (case amax x of
        Inl e \<Rightarrow> (Inl e, g)
      | Inr xmax \<Rightarrow>
     (case trapz w x of
        Inl e \<Rightarrow> (Inl e, g)
      | Inr nrm \<Rightarrow>
     (case uniform xmin xmax n g of
        (Inl e, g') \<Rightarrow> (Inl e, g')
      | (Inr xsample, g') \<Rightarrow>
     (case broadcast2 fmul y w of
        Inl e \<Rightarrow> (Inl e, g')
      | Inr yw \<Rightarrow>
     (case interp xsample x yw of
        Inl e \<Rightarrow> (Inl e, g')
      | Inr fi \<Rightarrow>
     (let num = map (fmul nrm) fi in
      case interp xsample x w of
        Inl e \<Rightarrow> (Inl e, g')
      | Inr wi \<Rightarrow>
     (case broadcast2 fdiv num wi of
        Inl e \<Rightarrow> (Inl e, g')
      | Inr weights \<Rightarrow> (Inr (xsample, weights), g')))))))))"

section \<open>The inversion sampler on a store of arrays\<close>

text \<open>
  A numpy array is a mutable object and \<^verbatim>\<open>y1 /= y1[-1]\<close> changes one in place. To say
  what a call leaves unchanged, the arrays live in a store: an address is a position in
  the list of all arrays allocated so far, a new array goes to the end, and the
  arguments x and y are addresses.
\<close>

datatype ndarray = FloatArray "npfloat list" | IntArray "nat list"

record store =
  heap :: "ndarray list"
  gen :: rng

definition floats :: "store \<Rightarrow> nat \<Rightarrow> npfloat list" where
  "floats s r = (case heap s ! r of FloatArray a \<Rightarrow> a | IntArray _ \<Rightarrow> [])"

definition ints :: "store \<Rightarrow> nat \<Rightarrow> nat list" where
  "ints s r = (case heap s ! r of IntArray a \<Rightarrow> a | FloatArray _ \<Rightarrow> [])"

definition alloc :: "ndarray \<Rightarrow> store \<Rightarrow> nat \<times> store" where
  "alloc a s = (length (heap s), s\<lparr>heap := heap s @ [a]\<rparr>)"

definition assign :: "nat \<Rightarrow> ndarray \<Rightarrow> store \<Rightarrow> store" where
  "assign r a s = s\<lparr>heap := (heap s)[r := a]\<rparr>"

definition inversionSampling_store :: "nat \<Rightarrow> nat \<Rightarrow> int \<Rightarrow> store \<Rightarrow> (error + nat) \<times> store" where
  "inversionSampling_store x y n s0 =
     (let (y1, s1) = alloc (FloatArray (cumsum (floats s0 y))) s0 in
      case last_item (floats s1 y1) of
        Inl e \<Rightarrow> (Inl e, s1)
      | Inr d \<Rightarrow>
          (let s2 = assign y1 (FloatArray (idiv (floats s1 y1) d)) s1 in
           case uniform (Fin 0) (Fin 1) n (gen s2) of
             (Inl e, g') \<Rightarrow> (Inl e, s2\<lparr>gen := g'\<rparr>)
           | (Inr us, g') \<Rightarrow>
               (let (ysample, s3) = alloc (FloatArray us) (s2\<lparr>gen := g'\<rparr>) in
                case interp (floats s3 ysample) (floats s3 y1) (floats s3 x) of
                  Inl e \<Rightarrow> (Inl e, s3)
                | Inr r \<Rightarrow>
                    (let (xsample, s4) = alloc (FloatArray r) s3;
                         (idx, s5) = alloc (IntArray (argsort (floats s4 xsample))) s4;
                         (xsample', s6) =
                            alloc (FloatArray (take_idx (floats s5 xsample) (ints s5 idx))) s5;
                         (ysample', s7) =
                            alloc (FloatArray (take_idx (floats s6 ysample) (ints s6 idx))) s6
                     in (Inr xsample', s7)))))"

section \<open>What the specification calls the samplers' results\<close>

text \<open>
  The piecewise linear interpolant of a table on a grid, clamped to the first value
  left of the grid and to the last value right of it.
\<close>

fun piecewise_linear :: "real list \<Rightarrow> real list \<Rightarrow> real \<Rightarrow> real" where
  "piecewise_linear (x0 # x1 # xs) (f0 # f1 # fs) t =
     (if t \<le> x0 then f0
      else if t < x1 then f0 + (f1 - f0) * (t - x0) / (x1 - x0)
      else piecewise_linear (x1 # xs) (f1 # fs) t)"
| "piecewise_linear [x0] [f0] t = f0"
| "piecewise_linear _ _ t = 0"

text \<open>The trapezoidal rule for a table on a grid.\<close>

definition trapezoid :: "real list \<Rightarrow> real list \<Rightarrow> real" where
  "trapezoid xs ws =
     (\<Sum>i < length xs - 1. (xs ! (i + 1) - xs ! i) * (ws ! i + ws ! (i + 1)) / 2)"

section \<open>Auxiliary functions on reals\<close>

text \<open>The running sums of a table of reals, as reals.\<close>

fun psums :: "real \<Rightarrow> real list \<Rightarrow> real list" where
  "psums acc [] = []"
| "psums acc (v # vs) = (acc + v) # psums (acc + v) vs"

text \<open>The table of a density of reals: the running sums over their total.\<close>

definition real_table :: "real list \<Rightarrow> real list" where
  "real_table ys = (case ys of [] \<Rightarrow> [] | v # vs \<Rightarrow> map (\<lambda>s. s / sum_list ys) (v # psums v vs))"

text \<open>The number of entries of a table that are at most k.\<close>

definition cnt :: "real \<Rightarrow> real list \<Rightarrow> nat" where
  "cnt k rs = length (filter (\<lambda>a. a \<le> k) rs)"

text \<open>
  What \<^verbatim>\<open>np.interp\<close> returns at t for a non-decreasing grid rs and values fs, both of
  reals: the bracket is the last entry of rs that is at most t.
\<close>

definition rinterp :: "real list \<Rightarrow> real list \<Rightarrow> real \<Rightarrow> real" where
  "rinterp rs fs t =
     (if t < hd rs then hd fs
      else if last rs < t then last fs
      else
        (let j = cnt t rs - 1 in
         if j = length rs - 1 then fs ! j
         else if rs ! j = t then fs ! j
         else (fs ! (j + 1) - fs ! j) / (rs ! (j + 1) - rs ! j) * (t - rs ! j) + fs ! j))"

section \<open>Arithmetic on finite values\<close>

lemma fge_Fin [simp]: "fge (Fin a) (Fin b) = (b \<le> a)"
  by (auto simp: fge_def feq_def)

lemma fgt_Fin [simp]: "fgt (Fin a) (Fin b) = (b < a)"
  by (simp add: fgt_def)

lemma feq_Fin [simp]: "feq (Fin a) (Fin b) = (a = b)"
  by (simp add: feq_def)

lemma fsub_Fin [simp]: "fsub (Fin a) (Fin b) = Fin (a - b)"
  by (simp add: fsub_def)

lemma fminimum_Fin: "fminimum (Fin a) (Fin b) = Fin (min a b)"
  by (auto simp: fminimum_def isnan_def)

lemma fmaximum_Fin: "fmaximum (Fin a) (Fin b) = Fin (max a b)"
  by (auto simp: fmaximum_def isnan_def)

lemma foldl_fminimum: "foldl fminimum (Fin a) (map Fin vs) = Fin (fold min vs a)"
  by (induction vs arbitrary: a) (simp_all add: fminimum_Fin min.commute)

lemma foldl_fmaximum: "foldl fmaximum (Fin a) (map Fin vs) = Fin (fold max vs a)"
  by (induction vs arbitrary: a) (simp_all add: fmaximum_Fin max.commute)

lemma foldl_fadd: "foldl fadd (Fin a) (map Fin vs) = Fin (a + sum_list vs)"
  by (induction vs arbitrary: a) (simp_all add: add.assoc)

lemma fsum_real: "fsum (map Fin vs) = Fin (sum_list vs)"
  using foldl_fadd [of 0 vs] by (simp add: fsum_def)

lemma map2_Fin:
  assumes "\<And>a b. f (Fin a) (Fin b) = Fin (h a b)"
  shows "map2 f (map Fin as) (map Fin bs) = map Fin (map2 h as bs)"
  by (induction as arbitrary: bs) (auto simp: assms split: list.splits; case_tac bs; simp add: assms)+

lemma map2_fadd: "map2 fadd (map Fin as) (map Fin bs) = map Fin (map2 (+) as bs)"
  by (rule map2_Fin) simp

lemma map2_fmul: "map2 fmul (map Fin as) (map Fin bs) = map Fin (map2 (*) as bs)"
  by (rule map2_Fin) simp

lemma diff_real: "diff (map Fin xs) = map Fin (map2 (-) (tl xs) (butlast xs))"
  unfolding diff_def map_tl [symmetric] map_butlast [symmetric]
  by (rule map2_Fin) simp

lemma broadcast2_same:
  "length a = length b \<Longrightarrow> broadcast2 f a b = Inr (map2 f a b)"
  by (simp add: broadcast2_def)

lemmas eval_defs = inversionSampling_def importanceSampling_def importanceSampling5_def
  cumulative_table_def cumsum_def last_item_def idiv_def
  uniform_def random_sample_def next_doubles_def isfinite_def isnan_def signed_inf_def
  fsub_def fgt_def fge_def fle_def feq_def fminimum_def fmaximum_def amin_def amax_def
  broadcast2_def diff_def fsum_def trapz_def
  interp_def interp_at_def binary_search_with_guess_def linear_search.simps
  argsort_def take_idx_def Let_def

section \<open>The cumulative table\<close>

lemma cumsum_from_Fin: "cumsum_from (Fin a) (map Fin vs) = map Fin (psums a vs)"
  by (induction vs arbitrary: a) simp_all

lemma length_cumsum_from: "length (cumsum_from a vs) = length vs"
  by (induction vs arbitrary: a) simp_all

lemma length_psums: "length (psums a vs) = length vs"
  by (induction vs arbitrary: a) simp_all

lemma psums_lower: "\<forall>v\<in>set vs. 0 \<le> v \<Longrightarrow> \<forall>s\<in>set (psums a vs). a \<le> s"
proof (induction vs arbitrary: a)
  case Nil
  then show ?case by simp
next
  case (Cons v vs)
  from Cons.prems have v: "0 \<le> v" and vs: "\<forall>v\<in>set vs. 0 \<le> v" by simp_all
  from Cons.IH [OF vs, of "a + v"] v show ?case by fastforce
qed

lemma sorted_psums: "\<forall>v\<in>set vs. 0 \<le> v \<Longrightarrow> sorted (a # psums a vs)"
proof (induction vs arbitrary: a)
  case Nil
  then show ?case by simp
next
  case (Cons v vs)
  from Cons.prems have v: "0 \<le> v" and vs: "\<forall>v\<in>set vs. 0 \<le> v" by simp_all
  have "sorted ((a + v) # psums (a + v) vs)" by (rule Cons.IH [OF vs])
  moreover have "\<forall>s\<in>set (psums (a + v) vs). a \<le> s"
    using psums_lower [OF vs, of "a + v"] v by fastforce
  ultimately show ?case using v by simp
qed

lemma last_psums: "last (a # psums a vs) = a + sum_list vs"
  by (induction vs arbitrary: a) (simp_all add: add.assoc)

lemma cumulative_table_real:
  assumes "sum_list ys \<noteq> 0"
  shows "cumulative_table (map Fin ys) = Inr (map Fin (real_table ys))"
proof (cases ys)
  case Nil
  with assms show ?thesis by simp
next
  case (Cons v vs)
  have l: "last (v # psums v vs) = sum_list ys"
    using last_psums [of v vs] Cons by simp
  have c: "cumsum (map Fin ys) = map Fin (v # psums v vs)"
    by (simp add: cumsum_def Cons cumsum_from_Fin)
  have "last (map Fin (v # psums v vs)) = Fin (sum_list ys)"
    using l by (simp only: last_map [of "v # psums v vs" Fin, OF list.distinct(2)])
  then show ?thesis
    using assms unfolding cumulative_table_def c last_item_def
    by (simp add: idiv_def real_table_def Cons Let_def)
qed

lemma real_table_props:
  assumes nn: "\<forall>v\<in>set ys. 0 \<le> v" and s: "sum_list ys \<noteq> 0"
  shows "length (real_table ys) = length ys"
    and "sorted (real_table ys)"
    and "0 \<le> hd (real_table ys)"
    and "last (real_table ys) = 1"
proof -
  from s obtain v vs where ys: "ys = v # vs" by (cases ys) auto
  from nn have "0 \<le> sum_list ys" by (simp add: sum_list_nonneg)
  with s have pos: "0 < sum_list ys" by simp
  from nn ys have v: "0 \<le> v" and vs: "\<forall>v\<in>set vs. 0 \<le> v" by simp_all
  show "length (real_table ys) = length ys"
    by (simp add: real_table_def ys length_psums)
  have sp: "sorted (v # psums v vs)" by (rule sorted_psums [OF vs])
  have "sorted_wrt (\<lambda>a b. a / sum_list ys \<le> b / sum_list ys) (v # psums v vs)"
    using sp pos unfolding sorted_wrt_iff_nth_less
    by (auto simp: divide_right_mono simp del: sorted_wrt.simps)
  then show "sorted (real_table ys)"
    unfolding real_table_def ys list.case sorted_map by (simp only: ys)
  show "0 \<le> hd (real_table ys)"
    using v pos by (simp add: real_table_def ys)
  have "last (real_table ys) = last (v # psums v vs) / sum_list ys"
    unfolding real_table_def ys list.case
    by (simp only: last_map [OF list.distinct(2)] ys)
  then show "last (real_table ys) = 1"
    using last_psums [of v vs] pos by (simp add: ys)
qed

lemma cumulative_table_length:
  "y \<noteq> [] \<Longrightarrow> \<exists>T. cumulative_table y = Inr T \<and> length T = length y"
  by (cases y) (simp_all add: cumulative_table_def cumsum_def last_item_def idiv_def Let_def length_cumsum_from)

text \<open>
  C4, as the code has it. The specification asks only that no entry of y is negative and that
  the sum is not zero. The density y = [inf, 1] is such an array of float64: its running
  sums are [inf, inf], and inf / inf is NaN, so that the table is [NaN, NaN]. Its last
  entry is not 1 and no comparison between its entries holds. The same happens to
  finite entries whose running sum exceeds the largest float64 (y = [2^1023, 2^1023]
  has the running sums [2^1023, inf] and the table [0, NaN]); the arithmetic of this
  file, exact on finite values, shows it at an infinite entry.
\<close>

theorem cumulative_table_overflow_counterexample:
  "fge PInf (Fin 0) \<and> fge (Fin 1) (Fin 0)
   \<and> cumsum [PInf, Fin 1] = [PInf, PInf]
   \<and> cumulative_table [PInf, Fin 1] = Inr [NaN, NaN]
   \<and> \<not> feq (last [NaN, NaN]) (Fin 1)
   \<and> \<not> fle (hd [NaN, NaN]) (last [NaN, NaN])"
  by (simp add: eval_defs)

text \<open>
  C4, amended. For a density y of at most 2^52 finite entries, none negative, whose sum
  is not zero and at most 2^1023 (so that every running sum is finite, in exact
  arithmetic and in float64 alike), the table that the inversion sampler builds (the
  running sums of y, each divided by the last) has one entry per entry of y, all
  finite, is non-decreasing, starts at a value that is at least 0 and ends at exactly 1.
\<close>

theorem cumulative_table_monotone_normalised:
  assumes "\<forall>v\<in>set ys. 0 \<le> v" and "sum_list ys \<noteq> 0"
    and "sum_list ys \<le> 2 ^ 1023" and "length ys \<le> 2 ^ 52"
  shows "\<exists>ts. cumulative_table (map Fin ys) = Inr (map Fin ts) \<and> length ts = length ys
           \<and> sorted ts \<and> 0 \<le> hd ts \<and> last ts = 1"
  using cumulative_table_real [OF assms(2)] real_table_props [OF assms(1,2)] by blast

theorem cumulative_table_monotone_normalised_witness:
  "list_all (\<lambda>v. 0 \<le> v) [1, 0, 3 :: real] \<and> sum_list [1, 0, 3 :: real] \<noteq> 0
   \<and> sum_list [1, 0, 3 :: real] \<le> 2 ^ 1023 \<and> length [1, 0, 3 :: real] \<le> 2 ^ 52
   \<and> cumulative_table (map Fin [1, 0, 3]) = Inr (map Fin [1 / 4, 1 / 4, 1])
   \<and> (\<exists>ts. cumulative_table (map Fin [1, 0, 3]) = Inr (map Fin ts)
           \<and> length ts = length [1, 0, 3 :: real]
           \<and> sorted ts \<and> 0 \<le> hd ts \<and> last ts = 1)"
proof -
  have h1: "\<forall>v\<in>set [1, 0, 3 :: real]. 0 \<le> v" by simp
  have h2: "sum_list [1, 0, 3 :: real] \<noteq> 0" by simp
  have h3: "sum_list [1, 0, 3 :: real] \<le> 2 ^ 1023" by simp
  have h4: "length [1, 0, 3 :: real] \<le> 2 ^ 52" by simp
  have L: "list_all (\<lambda>v. 0 \<le> v) [1, 0, 3 :: real]" by simp
  have T: "cumulative_table (map Fin [1, 0, 3]) = Inr (map Fin [1 / 4, 1 / 4, 1])"
    by (simp add: cumulative_table_def cumsum_def last_item_def idiv_def)
  show ?thesis
    by (intro conjI L h2 h3 h4 T cumulative_table_monotone_normalised [OF h1 h2 h3 h4])
qed

section \<open>The bracket search on a non-decreasing table\<close>

lemma cnt_le_length: "cnt k rs \<le> length rs"
  by (simp add: cnt_def)

lemma cnt_Cons: "cnt k (a # rs) = (if a \<le> k then Suc (cnt k rs) else cnt k rs)"
  by (simp add: cnt_def)

lemma cnt_zero: "\<forall>a\<in>set rs. k < a \<Longrightarrow> cnt k rs = 0"
  by (induction rs) (auto simp: cnt_Cons cnt_def)

lemma cnt_iff: "sorted rs \<Longrightarrow> i < length rs \<Longrightarrow> (rs ! i \<le> k) = (i < cnt k rs)"
proof (induction rs arbitrary: i)
  case Nil
  then show ?case by simp
next
  case (Cons a rs)
  show ?case
  proof (cases "a \<le> k")
    case True
    with Cons show ?thesis by (cases i) (auto simp: cnt_Cons)
  next
    case False
    with Cons.prems have "\<forall>b\<in>set (a # rs). k < b" by auto
    then have "cnt k (a # rs) = 0" and "k < (a # rs) ! i"
      using Cons.prems(2) cnt_zero nth_mem by blast+
    then show ?thesis by simp
  qed
qed

lemma linear_search_sorted:
  "sorted rs \<Longrightarrow> i \<le> cnt k rs \<Longrightarrow> linear_search (Fin k) (map Fin rs) i = cnt k rs"
proof (induction "length rs - i" arbitrary: i rule: less_induct)
  case less
  show ?case
  proof (cases "i < length rs \<and> rs ! i \<le> k")
    case True
    then have "i < cnt k rs" using cnt_iff [OF less.prems(1)] by blast
    then have "linear_search (Fin k) (map Fin rs) (i + 1) = cnt k rs"
      using less.hyps [of "i + 1"] less.prems True by auto
    then show ?thesis using True by (subst linear_search.simps) simp
  next
    case False
    then have "cnt k rs \<le> i"
      using cnt_iff [OF less.prems(1), of i k] cnt_le_length [of k rs] by (cases "i < length rs") auto
    with less.prems have "i = cnt k rs" by simp
    then show ?thesis using False by (subst linear_search.simps) auto
  qed
qed

lemma bisect_sorted:
  "sorted rs \<Longrightarrow> imin \<le> cnt k rs \<Longrightarrow> cnt k rs \<le> imax \<Longrightarrow> imax \<le> length rs
   \<Longrightarrow> bisect (Fin k) (map Fin rs) imin imax = cnt k rs"
proof (induction "imax - imin" arbitrary: imin imax rule: less_induct)
  case less
  show ?case
  proof (cases "imin < imax")
    case False
    with less.prems have "imin = cnt k rs" by simp
    then show ?thesis using False by (subst bisect.simps) simp
  next
    case True
    define imid where "imid = imin + (imax - imin) div 2"
    have mid: "imin \<le> imid" "imid < imax" "imid < length rs"
      using True less.prems(4) by (auto simp: imid_def)
    show ?thesis
    proof (cases "rs ! imid \<le> k")
      case le: True
      then have "imid + 1 \<le> cnt k rs"
        using cnt_iff [OF less.prems(1) mid(3), of k] by simp
      then have "bisect (Fin k) (map Fin rs) (imid + 1) imax = cnt k rs"
        using less.hyps [of imax "imid + 1"] less.prems mid by simp
      then show ?thesis
        using True le mid by (subst bisect.simps) (simp add: imid_def [symmetric] Let_def)
    next
      case gt: False
      then have "cnt k rs \<le> imid"
        using cnt_iff [OF less.prems(1) mid(3), of k] by simp
      then have "bisect (Fin k) (map Fin rs) imin imid = cnt k rs"
        using less.hyps [of imid imin] less.prems mid by simp
      then show ?thesis
        using True gt mid by (subst bisect.simps) (simp add: imid_def [symmetric] Let_def)
    qed
  qed
qed

lemma bsearch_sorted:
  assumes s: "sorted rs" and ne: "rs \<noteq> []"
  shows "binary_search_with_guess (Fin k) (map Fin rs) g0
         = (if last rs < k then int (length rs) else int (cnt k rs) - 1)"
proof -
  let ?arr = "map Fin rs"
  let ?len = "length rs"
  have len: "0 < ?len" using ne by simp
  have nth: "\<And>i. i < ?len \<Longrightarrow> ?arr ! i = Fin (rs ! i)" by simp
  have lastv: "?arr ! (?len - 1) = Fin (last rs)"
    using ne len by (simp add: last_conv_nth)
  have iff: "\<And>i. i < ?len \<Longrightarrow> (rs ! i \<le> k) = (i < cnt k rs)"
    by (rule cnt_iff [OF s])
  show ?thesis
  proof (cases "last rs < k")
    case True
    then show ?thesis
      unfolding binary_search_with_guess_def Let_def length_map lastv by simp
  next
    case le: False
    show ?thesis
    proof (cases "k < rs ! 0")
      case True
      then have "cnt k rs = 0" using iff [of 0] len by auto
      then show ?thesis
        using le True len
        unfolding binary_search_with_guess_def Let_def length_map lastv by simp
    next
      case ge: False
      then have c1: "1 \<le> cnt k rs" using iff [of 0] len by auto
      show ?thesis
      proof (cases "?len \<le> 4")
        case True
        then show ?thesis
          using le ge len linear_search_sorted [OF s c1]
          unfolding binary_search_with_guess_def Let_def length_map lastv by simp
      next
        case big: False
        define guess where
          "guess = nat (if (if int ?len - 3 < g0 then int ?len - 3 else g0) < 1 then 1
                        else (if int ?len - 3 < g0 then int ?len - 3 else g0))"
        have g: "1 \<le> guess" "guess + 3 \<le> ?len" using big by (auto simp: guess_def)
        have bs: "binary_search_with_guess (Fin k) ?arr g0 =
          (if flt (Fin k) (?arr ! guess) then
             (if flt (Fin k) (?arr ! (guess - 1)) then
                int (bisect (Fin k) ?arr
                   (if LIKELY_IN_CACHE_SIZE < guess
                               \<and> fge (Fin k) (?arr ! (guess - LIKELY_IN_CACHE_SIZE))
                             then guess - LIKELY_IN_CACHE_SIZE else 0) (guess - 1)) - 1
              else int guess - 1)
           else if flt (Fin k) (?arr ! (guess + 1)) then int guess
           else if flt (Fin k) (?arr ! (guess + 2)) then int guess + 1
           else int (bisect (Fin k) ?arr (guess + 2)
                  (if guess + LIKELY_IN_CACHE_SIZE + 1 < ?len
                            \<and> flt (Fin k) (?arr ! (guess + LIKELY_IN_CACHE_SIZE))
                          then guess + LIKELY_IN_CACHE_SIZE else ?len)) - 1)"
          using le ge len big
          unfolding binary_search_with_guess_def Let_def length_map lastv guess_def [symmetric]
          by simp
        have cl: "cnt k rs \<le> ?len" by (rule cnt_le_length)
        have i0: "(rs ! guess \<le> k) = (guess < cnt k rs)"
          and im: "(rs ! (guess - 1) \<le> k) = (guess - 1 < cnt k rs)"
          and i1: "(rs ! (guess + 1) \<le> k) = (guess + 1 < cnt k rs)"
          and i2: "(rs ! (guess + 2) \<le> k) = (guess + 2 < cnt k rs)"
          using g by (auto intro!: iff)
        show ?thesis
        proof (cases "k < rs ! guess")
          case lt: True
          then have cg: "cnt k rs \<le> guess" using i0 by auto
          show ?thesis
          proof (cases "k < rs ! (guess - 1)")
            case True
            then have cg1: "cnt k rs \<le> guess - 1" using im by auto
            have "(if LIKELY_IN_CACHE_SIZE < guess
                               \<and> fge (Fin k) (?arr ! (guess - LIKELY_IN_CACHE_SIZE))
                             then guess - LIKELY_IN_CACHE_SIZE else 0) \<le> cnt k rs"
              using iff [of "guess - LIKELY_IN_CACHE_SIZE"] g by (auto simp: LIKELY_IN_CACHE_SIZE_def)
            then have "bisect (Fin k) ?arr (if LIKELY_IN_CACHE_SIZE < guess
                               \<and> fge (Fin k) (?arr ! (guess - LIKELY_IN_CACHE_SIZE))
                             then guess - LIKELY_IN_CACHE_SIZE else 0) (guess - 1) = cnt k rs"
              using g cg1 by (intro bisect_sorted [OF s]) auto
            then show ?thesis using le lt True g unfolding bs by simp
          next
            case False
            then have "guess - 1 < cnt k rs" using im by auto
            with cg have "cnt k rs = guess" by simp
            then show ?thesis using le lt False g unfolding bs by simp
          qed
        next
          case ge0: False
          then have c0: "guess < cnt k rs" using i0 by auto
          show ?thesis
          proof (cases "k < rs ! (guess + 1)")
            case True
            then have "cnt k rs \<le> guess + 1" using i1 by auto
            with c0 have "cnt k rs = guess + 1" by simp
            then show ?thesis using le ge0 True g unfolding bs by simp
          next
            case ge1: False
            then have c1: "guess + 1 < cnt k rs" using i1 by auto
            show ?thesis
            proof (cases "k < rs ! (guess + 2)")
              case True
              then have "cnt k rs \<le> guess + 2" using i2 by auto
              with c1 have "cnt k rs = guess + 2" by simp
              then show ?thesis using le ge0 ge1 True g unfolding bs by simp
            next
              case ge2: False
              then have c2: "guess + 2 < cnt k rs" using i2 by auto
              have "cnt k rs \<le> (if guess + LIKELY_IN_CACHE_SIZE + 1 < ?len
                            \<and> flt (Fin k) (?arr ! (guess + LIKELY_IN_CACHE_SIZE))
                          then guess + LIKELY_IN_CACHE_SIZE else ?len)"
                using iff [of "guess + LIKELY_IN_CACHE_SIZE"] cl by auto
              then have "bisect (Fin k) ?arr (guess + 2) (if guess + LIKELY_IN_CACHE_SIZE + 1 < ?len
                            \<and> flt (Fin k) (?arr ! (guess + LIKELY_IN_CACHE_SIZE))
                          then guess + LIKELY_IN_CACHE_SIZE else ?len) = cnt k rs"
                using g c2 by (intro bisect_sorted [OF s]) auto
              then show ?thesis using le ge0 ge1 ge2 g unfolding bs by simp
            qed
          qed
        qed
      qed
    qed
  qed
qed

section \<open>Interpolation on a non-decreasing grid\<close>

lemma hd_le_last: "sorted rs \<Longrightarrow> rs \<noteq> [] \<Longrightarrow> hd rs \<le> (last rs :: real)"
  using sorted_nth_mono [of rs 0 "length rs - 1"] by (simp add: hd_conv_nth last_conv_nth)

lemma interp_at_sorted:
  assumes s: "sorted rs" and ne: "rs \<noteq> []" and l: "length fs = length rs"
  shows "interp_at (Fin t) (map Fin rs) (map Fin fs)
           (binary_search_with_guess (Fin t) (map Fin rs) g0) = Fin (rinterp rs fs t)"
proof -
  let ?len = "length rs"
  have len: "0 < ?len" using ne by simp
  have fne: "fs \<noteq> []" using l ne by auto
  have hl: "hd rs \<le> last rs"
    using s ne by (metis hd_conv_nth last_conv_nth sorted_nth_mono diff_less le0 len zero_less_one length_greater_0_conv)
  have iff: "\<And>i. i < ?len \<Longrightarrow> (rs ! i \<le> t) = (i < cnt t rs)"
    by (rule cnt_iff [OF s])
  have bs: "binary_search_with_guess (Fin t) (map Fin rs) g0
         = (if last rs < t then int ?len else int (cnt t rs) - 1)"
    by (rule bsearch_sorted [OF s ne])
  show ?thesis
  proof (cases "last rs < t")
    case True
    then have "\<not> t < hd rs" using hl by simp
    then show ?thesis
      using True len fne l unfolding bs interp_at_def Let_def
      by (simp add: rinterp_def last_map)
  next
    case le: False
    show ?thesis
    proof (cases "t < hd rs")
      case True
      then have "cnt t rs = 0" using iff [of 0] len ne by (auto simp: hd_conv_nth)
      then show ?thesis
        using le True len fne l unfolding bs interp_at_def Let_def
        by (simp add: rinterp_def hd_conv_nth)
    next
      case ge: False
      then have c1: "1 \<le> cnt t rs" using iff [of 0] len ne by (auto simp: hd_conv_nth)
      define j where "j = cnt t rs - 1"
      have cj: "int (cnt t rs) - 1 = int j" using c1 by (simp add: j_def)
      have jl: "j < ?len" using c1 cnt_le_length [of t rs] by (simp add: j_def)
      have jle: "rs ! j \<le> t" using iff [OF jl] c1 by (simp add: j_def)
      have rv: "rinterp rs fs t =
         (if j = ?len - 1 then fs ! j
          else if rs ! j = t then fs ! j
          else (fs ! (j + 1) - fs ! j) / (rs ! (j + 1) - rs ! j) * (t - rs ! j) + fs ! j)"
        using le ge by (simp add: rinterp_def Let_def j_def)
      have jm1: "int j \<noteq> - 1" by linarith
      have jm2: "j \<noteq> ?len" using jl by simp
      have jm3: "(int j = int ?len - 1) = (j = ?len - 1)" using jl by auto
      have jm4: "nat (int ?len - 1) = ?len - 1" by linarith
      note jm = jm1 jm2 jm3 jm4 ne
      have fj: "map Fin fs ! j = Fin (fs ! j)" using jl l by simp
      show ?thesis
      proof (cases "j = ?len - 1")
        case True
        then have e: "(int j = int ?len - 1) = True" using jm3 by simp
        have "rinterp rs fs t = fs ! j" using rv True by simp
        then show ?thesis
          unfolding bs interp_at_def Let_def cj length_map
          by (simp add: le jm1 jm2 e fj)
      next
        case nl: False
        then have e: "(int j = int ?len - 1) = False" using jm3 by simp
        have j1: "j + 1 < ?len" using jl nl by simp
        have gt: "t < rs ! (j + 1)" using iff [OF j1] c1 by (simp add: j_def)
        have fj1: "map Fin fs ! Suc j = Fin (fs ! Suc j)" using j1 l by simp
        have rj: "map Fin rs ! j = Fin (rs ! j)" "map Fin rs ! Suc j = Fin (rs ! Suc j)"
          using j1 by simp_all
        show ?thesis
        proof (cases "rs ! j = t")
          case True
          then have "rinterp rs fs t = fs ! j" using rv by simp
          then show ?thesis
            unfolding bs interp_at_def Let_def cj length_map
            by (simp add: le jm1 jm2 e fj rj True)
        next
          case False
          then have d: "rs ! Suc j \<noteq> rs ! j" using jle gt by simp
          have "rinterp rs fs t
                = (fs ! (j + 1) - fs ! j) / (rs ! (j + 1) - rs ! j) * (t - rs ! j) + fs ! j"
            using rv nl False by simp
          then show ?thesis
            unfolding bs interp_at_def Let_def cj length_map
            by (simp add: le jm1 jm2 e fj fj1 rj False d isnan_def del: nth_map)
        qed
      qed
    qed
  qed
qed

lemma interp_loop_sorted:
  assumes s: "sorted rs" and ne: "rs \<noteq> []" and l: "length fs = length rs"
  shows "interp_loop (map Fin ts) (map Fin rs) (map Fin fs) g0 = map (\<lambda>t. Fin (rinterp rs fs t)) ts"
  by (induction ts arbitrary: g0) (simp_all add: interp_at_sorted [OF s ne l] isnan_def Let_def)

lemma interp_sorted:
  assumes s: "sorted rs" and ne: "rs \<noteq> []" and l: "length fs = length rs"
  shows "interp (map Fin ts) (map Fin rs) (map Fin fs) = Inr (map (\<lambda>t. Fin (rinterp rs fs t)) ts)"
proof (cases "length rs = 1")
  case True
  then obtain r where rs: "rs = [r]" by (cases rs) auto
  with l obtain f where fs: "fs = [f]" by (cases fs) auto
  show ?thesis
    by (auto simp: interp_def rs fs rinterp_def cnt_def)
next
  case False
  then show ?thesis
    using ne l by (simp add: interp_def interp_loop_sorted [OF s ne l])
qed

lemma rinterp_left: "t < hd rs \<Longrightarrow> rinterp rs fs t = hd fs"
  by (simp add: rinterp_def)

lemma rinterp_right: "sorted rs \<Longrightarrow> rs \<noteq> [] \<Longrightarrow> last rs < t \<Longrightarrow> rinterp rs fs t = last fs"
  using hd_le_last [of rs] by (simp add: rinterp_def)

lemma rinterp_cases:
  assumes s: "sorted rs" and ne: "rs \<noteq> []" and l: "length fs = length rs"
  shows "(t < hd rs \<and> rinterp rs fs t = hd fs)
       \<or> (last rs \<le> t \<and> rinterp rs fs t = fs ! (length rs - 1))
       \<or> (\<exists>j. Suc j < length rs \<and> rs ! j \<le> t \<and> t < rs ! Suc j
              \<and> rinterp rs fs t
                  = fs ! j + (fs ! Suc j - fs ! j) * (t - rs ! j) / (rs ! Suc j - rs ! j))"
proof -
  let ?len = "length rs"
  have len: "0 < ?len" using ne by simp
  have iff: "\<And>i. i < ?len \<Longrightarrow> (rs ! i \<le> t) = (i < cnt t rs)"
    by (rule cnt_iff [OF s])
  show ?thesis
  proof (cases "t < hd rs \<or> last rs < t")
    case True
    moreover have "last fs = fs ! (length rs - 1)"
      using l ne by (metis last_conv_nth length_0_conv)
    ultimately show ?thesis
      using rinterp_left [of t rs fs] rinterp_right [OF s ne, of t fs] by auto
  next
    case False
    then have ge: "\<not> t < hd rs" and le: "\<not> last rs < t" by simp_all
    have c1: "1 \<le> cnt t rs" using iff [of 0] len ne ge by (auto simp: hd_conv_nth)
    define j where "j = cnt t rs - 1"
    have jl: "j < ?len" using c1 cnt_le_length [of t rs] by (simp add: j_def)
    have jle: "rs ! j \<le> t" using iff [OF jl] c1 by (simp add: j_def)
    have rv: "rinterp rs fs t =
         (if j = ?len - 1 then fs ! j
          else if rs ! j = t then fs ! j
          else (fs ! (j + 1) - fs ! j) / (rs ! (j + 1) - rs ! j) * (t - rs ! j) + fs ! j)"
      using le ge by (simp add: rinterp_def Let_def j_def)
    show ?thesis
    proof (cases "j = ?len - 1")
      case True
      then have "last rs \<le> t" using jle ne by (simp add: last_conv_nth)
      then show ?thesis using rv True by simp
    next
      case False
      then have j1: "Suc j < ?len" using jl by linarith
      have gt: "t < rs ! Suc j" using iff [OF j1] c1 by (simp add: j_def)
      have "rinterp rs fs t
             = fs ! j + (fs ! Suc j - fs ! j) * (t - rs ! j) / (rs ! Suc j - rs ! j)"
        using rv False by simp
      then show ?thesis using j1 jle gt by blast
    qed
  qed
qed

lemma rinterp_bounds:
  assumes s: "sorted rs" and sf: "sorted fs" and ne: "rs \<noteq> []" and l: "length fs = length rs"
  shows "hd fs \<le> rinterp rs fs t \<and> rinterp rs fs t \<le> last fs"
proof -
  let ?len = "length rs"
  have fne: "fs \<noteq> []" using l ne by auto
  have h: "hd fs = fs ! 0" and la: "last fs = fs ! (?len - 1)"
    using fne l by (simp_all add: hd_conv_nth last_conv_nth)
  have bnd: "fs ! 0 \<le> fs ! i \<and> fs ! i \<le> fs ! (?len - 1)" if "i < ?len" for i
    using that sf l by (simp add: sorted_nth_mono)
  have len: "0 < ?len" using ne by simp
  show ?thesis
  proof (cases "t < hd rs \<or> last rs < t")
    case True
    then show ?thesis using bnd [of 0] len unfolding h la by (auto simp: rinterp_def h la)
  next
    case False
    then have ge: "\<not> t < hd rs" and le: "\<not> last rs < t" by simp_all
    have iff: "\<And>i. i < ?len \<Longrightarrow> (rs ! i \<le> t) = (i < cnt t rs)"
      by (rule cnt_iff [OF s])
    have c1: "1 \<le> cnt t rs" using iff [of 0] len ne ge by (auto simp: hd_conv_nth)
    define j where "j = cnt t rs - 1"
    have jl: "j < ?len" using c1 cnt_le_length [of t rs] by (simp add: j_def)
    have jle: "rs ! j \<le> t" using iff [OF jl] c1 by (simp add: j_def)
    have rv: "rinterp rs fs t =
         (if j = ?len - 1 then fs ! j
          else if rs ! j = t then fs ! j
          else (fs ! (j + 1) - fs ! j) / (rs ! (j + 1) - rs ! j) * (t - rs ! j) + fs ! j)"
      using le ge by (simp add: rinterp_def Let_def j_def)
    show ?thesis
    proof (cases "j = ?len - 1 \<or> rs ! j = t")
      case True
      then show ?thesis using bnd [OF jl] unfolding rv h la by auto
    next
      case False
      then have j1: "j + 1 < ?len" using jl by linarith
      have gt: "t < rs ! (j + 1)" using iff [OF j1] c1 by (simp add: j_def)
      define a where "a = fs ! j"
      define b where "b = fs ! (j + 1)"
      define d where "d = rs ! (j + 1) - rs ! j"
      define e where "e = t - rs ! j"
      have ab: "a \<le> b" using sf j1 l by (simp add: a_def b_def sorted_nth_mono)
      have d: "0 < d" "0 \<le> e" "e \<le> d" using jle gt by (simp_all add: d_def e_def)
      have r: "rinterp rs fs t = (b - a) / d * e + a"
        using False unfolding rv a_def b_def d_def e_def by simp
      have lo: "0 \<le> (b - a) / d * e" using ab d by simp
      have "(b - a) / d * e \<le> (b - a) / d * d"
        using ab d by (intro mult_left_mono) simp_all
      then have hi: "(b - a) / d * e \<le> b - a" using d by simp
      have "fs ! 0 \<le> a" "b \<le> fs ! (?len - 1)"
        using bnd [OF jl] bnd [OF j1] by (simp_all add: a_def b_def)
      then show ?thesis using lo hi unfolding r h la by linarith
    qed
  qed
qed

lemma pl_left:
  "length fs = length rs \<Longrightarrow> rs \<noteq> [] \<Longrightarrow> t \<le> hd rs \<Longrightarrow> piecewise_linear rs fs t = hd fs"
  by (induction rs fs t rule: piecewise_linear.induct) simp_all

lemma pl_right:
  "sorted_wrt (<) rs \<Longrightarrow> length fs = length rs \<Longrightarrow> rs \<noteq> [] \<Longrightarrow> last rs \<le> t
   \<Longrightarrow> piecewise_linear rs fs t = last fs"
proof (induction rs fs t rule: piecewise_linear.induct)
  case (1 x0 x1 xs f0 f1 fs t)
  have "x1 \<le> last (x1 # xs)"
    using "1.prems"(1) hd_le_last [of "x1 # xs"] strict_sorted_imp_sorted [of "x1 # xs"] by simp
  with "1.prems" have "x0 < t" "x1 \<le> t" by auto
  with 1 show ?case by simp
qed simp_all

lemma pl_mid:
  "sorted_wrt (<) rs \<Longrightarrow> length fs = length rs \<Longrightarrow> Suc i < length rs
   \<Longrightarrow> rs ! i \<le> t \<Longrightarrow> t < rs ! Suc i
   \<Longrightarrow> piecewise_linear rs fs t
       = fs ! i + (fs ! Suc i - fs ! i) * (t - rs ! i) / (rs ! Suc i - rs ! i)"
proof (induction rs fs t arbitrary: i rule: piecewise_linear.induct)
  case (1 x0 x1 xs f0 f1 fs t)
  show ?case
  proof (cases i)
    case 0
    with "1.prems" show ?thesis by auto
  next
    case (Suc k)
    have "x1 \<le> (x1 # xs) ! k"
      using "1.prems" Suc sorted_nth_mono [of "x1 # xs" 0 k] strict_sorted_imp_sorted [of "x1 # xs"]
      by simp
    with "1.prems" Suc have "x0 < t" "x1 \<le> t" by auto
    with 1 Suc show ?thesis by simp
  qed
qed simp_all

lemma rinterp_piecewise_linear:
  assumes x: "sorted_wrt (<) rs" and ne: "rs \<noteq> []" and l: "length fs = length rs"
  shows "rinterp rs fs t = piecewise_linear rs fs t"
proof -
  have s: "sorted rs" by (rule strict_sorted_imp_sorted [OF x])
  have fne: "fs \<noteq> []" using l ne by auto
  from rinterp_cases [OF s ne l, of t] show ?thesis
  proof (elim disjE conjE exE)
    assume "t < hd rs" "rinterp rs fs t = hd fs"
    then show ?thesis using pl_left [OF l ne, of t] by simp
  next
    assume "last rs \<le> t" "rinterp rs fs t = fs ! (length rs - 1)"
    then show ?thesis using pl_right [OF x l ne, of t] fne l by (simp add: last_conv_nth)
  next
    fix j
    assume "Suc j < length rs" "rs ! j \<le> t" "t < rs ! Suc j"
      "rinterp rs fs t = fs ! j + (fs ! Suc j - fs ! j) * (t - rs ! j) / (rs ! Suc j - rs ! j)"
    then show ?thesis using pl_mid [OF x l, of j t] by simp
  qed
qed

lemma interp_strict:
  assumes x: "sorted_wrt (<) xs" and ne: "xs \<noteq> []" and l: "length fs = length xs"
  shows "interp (map Fin ts) (map Fin xs) (map Fin fs)
           = Inr (map Fin (map (piecewise_linear xs fs) ts))"
  using interp_sorted [OF strict_sorted_imp_sorted [OF x] ne l, of ts]
  by (simp add: rinterp_piecewise_linear [OF x ne l])

section \<open>Interpolation on any table\<close>

lemma length_interp_loop: "length (interp_loop z dx dy j) = length z"
  by (induction z arbitrary: j) (simp_all add: Let_def)

lemma interp_total:
  "xp \<noteq> [] \<Longrightarrow> length fp = length xp
   \<Longrightarrow> \<exists>r. interp z xp fp = Inr r \<and> length r = length z"
  by (simp add: interp_def length_interp_loop)

lemma interp_mismatch: "length fp \<noteq> length xp \<Longrightarrow> interp z xp fp = Inl ValueError"
  by (simp add: interp_def)

lemma fle_Fin: "fle (Fin a) (Fin b) = (a \<le> b)"
  by (auto simp: fle_def feq_def)

lemma flt_fle_not_flt: "flt u a \<Longrightarrow> fle a b \<Longrightarrow> \<not> flt b u"
  by (cases u; cases a; cases b) (auto simp: fle_def feq_def)

lemma flt_not_nan: "flt u a \<Longrightarrow> \<not> isnan u \<and> \<not> isnan a"
  by (cases u; cases a) (simp_all add: isnan_def)

lemma flt_asym: "flt u a \<Longrightarrow> \<not> flt a u"
  by (cases u; cases a) simp_all

lemma sorted_fle_hd_last:
  assumes s: "sorted_wrt fle T" and l: "2 \<le> length T"
  shows "fle (hd T) (last T)"
proof -
  have ne: "T \<noteq> []" using l by auto
  have "fle (T ! 0) (T ! (length T - 1))"
    using l by (intro sorted_wrt_nth_less [OF s]) simp_all
  then show ?thesis using ne by (simp add: hd_conv_nth last_conv_nth)
qed

text \<open>
  The two ends of \<^verbatim>\<open>np.interp\<close>, for any table T in non-decreasing order and any values
  X of the same length: a key above the last entry of T gives the last value, a key below
  the first entry gives the first value. Only comparisons are involved.
\<close>

lemma interp_above_last:
  assumes ne: "T \<noteq> []" and l: "length X = length T" and k: "fgt k (last T)"
  shows "interp [k] T X = Inr [last X]"
proof (cases "length T = 1")
  case True
  then have lt: "last T = T ! 0" using ne by (simp add: last_conv_nth)
  have "flt (T ! 0) k" using k lt by (simp add: fgt_def)
  then have "\<not> flt k (T ! 0)" by (rule flt_asym)
  then show ?thesis using True l k lt by (simp add: interp_def)
next
  case False
  have nn: "\<not> isnan k" using k flt_not_nan [of "last T" k] by (simp add: fgt_def)
  have b: "binary_search_with_guess k T 0 = int (length T)"
    using k ne by (simp add: binary_search_with_guess_def Let_def last_conv_nth)
  show ?thesis
    using False ne l nn by (simp add: interp_def b interp_at_def Let_def)
qed

lemma interp_below_first:
  assumes ne: "T \<noteq> []" and l: "length X = length T" and s: "sorted_wrt fle T"
    and k: "flt k (hd T)"
  shows "interp [k] T X = Inr [hd X]"
proof (cases "length T = 1")
  case True
  have Xne: "X \<noteq> []" using l ne by auto
  show ?thesis using True l k ne Xne by (simp add: interp_def hd_conv_nth)
next
  case False
  moreover have "length T \<noteq> 0" using ne by simp
  ultimately have 2: "2 \<le> length T" by linarith
  have Xne: "X \<noteq> []" using l ne by auto
  have nn: "\<not> isnan k" using k flt_not_nan [of k "hd T"] by simp
  have ng: "\<not> fgt k (T ! (length T - 1))"
    using flt_fle_not_flt [OF k sorted_fle_hd_last [OF s 2]] ne
    by (simp add: fgt_def last_conv_nth)
  have k0: "flt k (T ! 0)" using k ne by (simp add: hd_conv_nth)
  have b: "binary_search_with_guess k T 0 = - 1"
    using ng k0 by (simp add: binary_search_with_guess_def Let_def)
  show ?thesis
    using False ne l nn Xne by (simp add: interp_def b interp_at_def Let_def hd_conv_nth)
qed



section \<open>Sorting the samples\<close>

lemma insort_key_map:
  "map f (insort_key (\<lambda>p. k (f p)) x ys) = insort_key k (f x) (map f ys)"
  by (induction ys) simp_all

lemma sort_key_map:
  "map f (sort_key (\<lambda>p. k (f p)) ps) = sort_key k (map f ps)"
  by (induction ps) (simp_all add: insort_key_map)

lemma take_idx_argsort: "take_idx a (argsort a) = sort_key sort_rank a"
proof -
  let ?zs = "sort_key (\<lambda>p. sort_rank (fst p)) (zip a [0..<length a])"
  have "\<forall>p\<in>set ?zs. a ! snd p = fst p"
    by (auto simp: set_zip)
  then have "map (\<lambda>i. a ! i) (map snd ?zs) = map fst ?zs"
    by simp
  also have "\<dots> = sort_key sort_rank (map fst (zip a [0..<length a]))"
    by (rule sort_key_map)
  finally show ?thesis by (simp add: take_idx_def argsort_def)
qed

lemma insort_key_rank:
  "insort_key (Pair (c::nat)) (x::real) vs = insort_key (\<lambda>v. v) x vs"
  by (induction vs) simp_all

lemma sort_key_rank: "sort_key (Pair (c::nat)) (vs::real list) = sort vs"
  by (induction vs) (simp_all add: insort_key_rank)

lemma sort_key_Fin: "sort_key sort_rank (map Fin vs) = map Fin (sort vs)"
  using sort_key_map [of Fin sort_rank vs] by (simp add: sort_key_rank)

section \<open>The inversion sampler on a valid density\<close>

lemma length_next_doubles: "length (next_doubles g k) = k"
  by (simp add: next_doubles_def)

lemma uniform_unit:
  "0 \<le> n \<Longrightarrow> uniform (Fin 0) (Fin 1) n g
     = (Inr (map Fin (next_doubles g (nat n))), g\<lparr>consumed := consumed g + nat n\<rparr>)"
  by (simp add: uniform_def isfinite_def random_sample_def comp_def)

lemma inversionSampling_real:
  assumes l: "length xs = length ys" and nn: "\<forall>v\<in>set ys. 0 \<le> v" and s: "sum_list ys \<noteq> 0"
    and n: "0 \<le> n"
  shows "inversionSampling (map Fin xs) (map Fin ys) n g
     = (Inr (map Fin (sort (map (rinterp (real_table ys) xs) (next_doubles g (nat n))))),
        g\<lparr>consumed := consumed g + nat n\<rparr>)"
proof -
  have ne: "real_table ys \<noteq> []" and len: "length xs = length (real_table ys)"
    using real_table_props(1) [OF nn s] s l by auto
  have srt: "sorted (real_table ys)" by (rule real_table_props(2) [OF nn s])
  have i: "interp (map Fin us) (map Fin (real_table ys)) (map Fin xs)
        = Inr (map Fin (map (rinterp (real_table ys) xs) us))" for us
    using interp_sorted [OF srt ne len] by simp
  show ?thesis
    unfolding inversionSampling_def cumulative_table_real [OF s] uniform_unit [OF n]
    by (simp add: i take_idx_argsort sort_key_Fin Let_def del: map_map)
qed

lemma sorted_Min_hd: "sorted xs \<Longrightarrow> xs \<noteq> [] \<Longrightarrow> Min (set xs) = hd xs"
  by (cases xs) (auto intro!: Min_eqI)

text \<open>
  C1, as the code has it. The specification asks of y only that no entry is negative and that not
  all are zero, and of x only that it increases strictly. On the grid x = [0, 1] the
  density y = [inf, 1] has the cumulative table [NaN, NaN], and the draw 3/4 gives the
  sample NaN; on the grid x = [-inf, inf] the density y = [1, 1] has the table [1/2, 1],
  the slope of the bracket is inf, and the draw 3/4 gives inf * (1/4) + -inf, which is
  NaN again. A NaN is neither at least min(x) nor at most max(x).

  In float64 finite entries do the same once a running sum exceeds the largest float64
  (y = [2^1023, 2^1023] has the table [0, NaN] and the draw 3/4 gives NaN); a grid whose
  range exceeds it gives the sample inf (x = [-2^1023, 2^1023], y = [1, 1], draw 3/4);
  and on small tables the upper bound is lost to rounding: for x = [-3, 3],
  y = [42, 100] and the draw 1 - 2^-53 the sample is 3.000000000000001. The arithmetic of
  this file, exact on finite values, shows the failure at infinite entries.
\<close>

theorem inversion_samples_counterexample:
  "flt (Fin 0) (Fin 1) \<and> fge PInf (Fin 0) \<and> fge (Fin 1) (Fin 0)
   \<and> inversionSampling [Fin 0, Fin 1] [PInf, Fin 1] 1 \<lparr>stream = (\<lambda>i. 3 / 4), consumed = 0\<rparr>
       = (Inr [NaN], \<lparr>stream = (\<lambda>i. 3 / 4), consumed = 1\<rparr>)
   \<and> flt NInf PInf
   \<and> inversionSampling [NInf, PInf] [Fin 1, Fin 1] 1 \<lparr>stream = (\<lambda>i. 3 / 4), consumed = 0\<rparr>
       = (Inr [NaN], \<lparr>stream = (\<lambda>i. 3 / 4), consumed = 1\<rparr>)
   \<and> \<not> fge NaN (Fin 0) \<and> \<not> fle NaN (Fin 1) \<and> \<not> fge NaN NInf \<and> \<not> fle NaN PInf"
  by (simp add: eval_defs)

text \<open>
  C1, amended. Let x be a strictly increasing grid and y a density of the same length, of
  at most 2^52 entries, none negative, whose sum is not zero and at most 2^1023 (so that
  every running sum is finite), and let n > 0. Then

  \<^item> the cumulative table has the length of x and is in non-decreasing order;
  \<^item> the sampler raises nothing, consumes n doubles and returns n samples, each of them
    at least min(x) (and so none of them NaN);
  \<^item> on any table T of that length in non-decreasing order, the interpolation step maps
    a draw below the first entry of T to x[0] and a draw above its last entry to x[m-1].

  The upper bound s <= max(x) of the specification is left out: it holds in the exact arithmetic
  of this file (lemmas \<open>inversionSampling_real\<close> and \<open>rinterp_bounds\<close>), and the float64 of
  the code loses it to rounding and to the overflow of x[j+1] - x[j].
\<close>

theorem inversion_samples_within_support:
  assumes x: "sorted_wrt (<) xs" and l: "length ys = length xs"
    and nn: "\<forall>v\<in>set ys. 0 \<le> v" and s: "sum_list ys \<noteq> 0"
    and b: "sum_list ys \<le> 2 ^ 1023" and m: "length ys \<le> 2 ^ 52" and n: "0 < n"
  shows "(\<exists>T. cumulative_table (map Fin ys) = Inr T \<and> length T = length xs
              \<and> sorted_wrt fle T)
         \<and> (\<exists>ss. inversionSampling (map Fin xs) (map Fin ys) n g
                    = (Inr ss, g\<lparr>consumed := consumed g + nat n\<rparr>)
                \<and> length ss = nat n
                \<and> (\<forall>s\<in>set ss. fge s (Fin (Min (set xs)))))
         \<and> (\<forall>T. length T = length xs \<and> sorted_wrt fle T \<longrightarrow>
                (flt (Fin u) (hd T) \<longrightarrow> interp [Fin u] T (map Fin xs) = Inr [Fin (hd xs)])
              \<and> (fgt (Fin v) (last T) \<longrightarrow> interp [Fin v] T (map Fin xs) = Inr [Fin (last xs)]))"
proof -
  let ?ts = "real_table ys"
  let ?ss = "sort (map (rinterp ?ts xs) (next_doubles g (nat n)))"
  have sx: "sorted xs" by (rule strict_sorted_imp_sorted [OF x])
  have tne: "?ts \<noteq> []" and len: "length xs = length ?ts"
    using real_table_props(1) [OF nn s] s l by auto
  have xne: "xs \<noteq> []" using len tne by auto
  have srt: "sorted ?ts" by (rule real_table_props(2) [OF nn s])
  have "sorted_wrt fle (map Fin ?ts)"
    using srt by (simp add: sorted_wrt_map fle_Fin)
  then have A: "\<exists>T. cumulative_table (map Fin ys) = Inr T \<and> length T = length xs
                  \<and> sorted_wrt fle T"
    using cumulative_table_real [OF s] len by simp
  have lo: "Min (set xs) \<le> rinterp ?ts xs t" for t
    using rinterp_bounds [OF srt sx tne len] sorted_Min_hd [OF sx xne] by simp
  have R: "inversionSampling (map Fin xs) (map Fin ys) n g
             = (Inr (map Fin ?ss), g\<lparr>consumed := consumed g + nat n\<rparr>)"
    using inversionSampling_real [OF l [symmetric] nn s, of n g] n by simp
  have L: "length (map Fin ?ss) = nat n" by (simp add: length_next_doubles)
  have "\<forall>s\<in>set ?ss. Min (set xs) \<le> s" using lo by auto
  then have G: "\<forall>s\<in>set (map Fin ?ss). fge s (Fin (Min (set xs)))" by auto
  from R L G have B: "\<exists>ss. inversionSampling (map Fin xs) (map Fin ys) n g
                    = (Inr ss, g\<lparr>consumed := consumed g + nat n\<rparr>)
                \<and> length ss = nat n
                \<and> (\<forall>s\<in>set ss. fge s (Fin (Min (set xs))))"
    by blast
  have C: "(flt (Fin u) (hd T) \<longrightarrow> interp [Fin u] T (map Fin xs) = Inr [Fin (hd xs)])
         \<and> (fgt (Fin v) (last T) \<longrightarrow> interp [Fin v] T (map Fin xs) = Inr [Fin (last xs)])"
    if T: "length T = length xs" "sorted_wrt fle T" for T
  proof -
    have Tne: "T \<noteq> []" using T xne by auto
    have lx: "length (map Fin xs) = length T" using T by simp
    have h: "hd (map Fin xs) = Fin (hd xs)" and e: "last (map Fin xs) = Fin (last xs)"
      using xne by (simp_all add: hd_map last_map)
    show ?thesis
      using interp_below_first [OF Tne lx T(2), of "Fin u"]
        interp_above_last [OF Tne lx, of "Fin v"] h e by simp
  qed
  from A B C show ?thesis by blast
qed

theorem inversion_samples_within_support_witness:
  "sorted_wrt (<) [0, 1, 2 :: real] \<and> length [1, 0, 1 :: real] = length [0, 1, 2 :: real]
   \<and> list_all (\<lambda>v. 0 \<le> v) [1, 0, 1 :: real] \<and> sum_list [1, 0, 1 :: real] \<noteq> 0
   \<and> sum_list [1, 0, 1 :: real] \<le> 2 ^ 1023 \<and> length [1, 0, 1 :: real] \<le> 2 ^ 52
   \<and> (0 :: int) < 4
   \<and> cumulative_table (map Fin [1, 0, 1]) = Inr [Fin (1 / 2), Fin (1 / 2), Fin 1]
   \<and> length [Fin (1 / 2), Fin (1 / 2), Fin 1] = length [0, 1, 2 :: real]
   \<and> sorted_wrt fle [Fin (1 / 2), Fin (1 / 2), Fin 1]
   \<and> inversionSampling (map Fin [0, 1, 2]) (map Fin [1, 0, 1]) 4
         \<lparr>stream = (\<lambda>i. real i / 4), consumed = 0\<rparr>
       = (Inr [Fin 0, Fin 0, Fin 1, Fin (3 / 2)], \<lparr>stream = (\<lambda>i. real i / 4), consumed = 4\<rparr>)
   \<and> list_all (\<lambda>s. fge s (Fin (Min (set [0, 1, 2])))) [Fin 0, Fin 0, Fin 1, Fin (3 / 2)]
   \<and> flt (Fin (1 / 4)) (hd [Fin (1 / 2), Fin (1 / 2), Fin 1])
   \<and> interp [Fin (1 / 4)] [Fin (1 / 2), Fin (1 / 2), Fin 1] (map Fin [0, 1, 2])
       = Inr [Fin (hd [0, 1, 2])]
   \<and> fgt (Fin 2) (last [Fin (1 / 2), Fin (1 / 2), Fin 1])
   \<and> interp [Fin 2] [Fin (1 / 2), Fin (1 / 2), Fin 1] (map Fin [0, 1, 2])
       = Inr [Fin (last [0, 1, 2])]"
proof -
  let ?g = "\<lparr>stream = (\<lambda>i. real i / 4), consumed = 0\<rparr>"
  let ?T = "[Fin (1 / 2), Fin (1 / 2), Fin 1]"
  have h1: "sorted_wrt (<) [0, 1, 2 :: real]" by simp
  have h2: "length [1, 0, 1 :: real] = length [0, 1, 2 :: real]" by simp
  have h3: "\<forall>v\<in>set [1, 0, 1 :: real]. 0 \<le> v" by simp
  have h4: "sum_list [1, 0, 1 :: real] \<noteq> 0" by simp
  have h5: "sum_list [1, 0, 1 :: real] \<le> 2 ^ 1023" by simp
  have h6: "length [1, 0, 1 :: real] \<le> 2 ^ 52" by simp
  have h7: "(0 :: int) < 4" by simp
  have L3: "list_all (\<lambda>v. 0 \<le> v) [1, 0, 1 :: real]" by simp
  have T: "cumulative_table (map Fin [1, 0, 1]) = Inr ?T"
    by (simp add: cumulative_table_def cumsum_def last_item_def idiv_def)
  have lT: "length ?T = length [0, 1, 2 :: real]" by simp
  have sT: "sorted_wrt fle ?T" by (simp add: fle_Fin)
  have R: "inversionSampling (map Fin [0, 1, 2]) (map Fin [1, 0, 1]) 4 ?g
             = (Inr [Fin 0, Fin 0, Fin 1, Fin (3 / 2)],
                \<lparr>stream = (\<lambda>i. real i / 4), consumed = 4\<rparr>)"
    by (simp add: eval_defs sort_key_def numeral_eq_Suc upt_rec)
  have u: "flt (Fin (1 / 4)) (hd ?T)" by simp
  have v: "fgt (Fin 2) (last ?T)" by simp
  note W = inversion_samples_within_support [OF h1 h2 h3 h4 h5 h6 h7, of ?g "1 / 4" 2]
  from W obtain ss where
    r: "inversionSampling (map Fin [0, 1, 2]) (map Fin [1, 0, 1]) 4 ?g
          = (Inr ss, ?g\<lparr>consumed := consumed ?g + nat 4\<rparr>)"
    and g: "\<forall>s\<in>set ss. fge s (Fin (Min (set [0, 1, 2])))"
    by blast
  have "ss = [Fin 0, Fin 0, Fin 1, Fin (3 / 2)]" using r unfolding R by simp
  with g have G: "list_all (\<lambda>s. fge s (Fin (Min (set [0, 1, 2])))) [Fin 0, Fin 0, Fin 1, Fin (3 / 2)]"
    by (simp only: list_all_iff)
  from W have "length ?T = length [0, 1, 2 :: real] \<and> sorted_wrt fle ?T \<longrightarrow>
                (flt (Fin (1 / 4)) (hd ?T)
                   \<longrightarrow> interp [Fin (1 / 4)] ?T (map Fin [0, 1, 2]) = Inr [Fin (hd [0, 1, 2])])
              \<and> (fgt (Fin 2) (last ?T)
                   \<longrightarrow> interp [Fin 2] ?T (map Fin [0, 1, 2]) = Inr [Fin (last [0, 1, 2])])"
    by blast
  with lT sT u v
  have I1: "interp [Fin (1 / 4)] ?T (map Fin [0, 1, 2]) = Inr [Fin (hd [0, 1, 2])]"
    and I2: "interp [Fin 2] ?T (map Fin [0, 1, 2]) = Inr [Fin (last [0, 1, 2])]"
    by blast+
  show ?thesis
    by (intro conjI h1 h2 L3 h4 h5 h6 h7 T lT sT R G u I1 v I2)
qed



lemma uniform_window:
  assumes "next_doubles g1 (nat n) = next_doubles g2 (nat n)"
  shows "fst (uniform lo hi n g1) = fst (uniform lo hi n g2)"
  using assms by (simp add: uniform_def random_sample_def Let_def)

lemma inversionSampling_fst:
  "fst (inversionSampling x y n g) =
     (case cumulative_table y of
        Inl e \<Rightarrow> Inl e
      | Inr y1 \<Rightarrow>
          (case fst (uniform (Fin 0) (Fin 1) n g) of
             Inl e \<Rightarrow> Inl e
           | Inr ysample \<Rightarrow>
               (case interp ysample y1 x of
                  Inl e \<Rightarrow> Inl e
                | Inr xsample \<Rightarrow> Inr (take_idx xsample (argsort xsample)))))"
  by (simp add: inversionSampling_def Let_def split: sum.splits prod.splits)

text \<open>
  C7. Two calls of the sampler with the same x, y and n give the same result whenever
  the random source hands both the same n doubles, whatever else differs in the two
  states of the source; in particular when the two states are the same.
\<close>

theorem inversion_deterministic:
  assumes "\<forall>i<nat n. stream g1 (consumed g1 + i) = stream g2 (consumed g2 + i)"
  shows "fst (inversionSampling x y n g1) = fst (inversionSampling x y n g2)"
proof -
  have "next_doubles g1 (nat n) = next_doubles g2 (nat n)"
    using assms by (simp add: next_doubles_def)
  then have "fst (uniform (Fin 0) (Fin 1) n g1) = fst (uniform (Fin 0) (Fin 1) n g2)"
    by (rule uniform_window)
  then show ?thesis by (simp only: inversionSampling_fst)
qed

theorem inversion_deterministic_witness:
  "fst (inversionSampling (map Fin [0, 1, 2]) (map Fin [1, 0, 3]) 2
          \<lparr>stream = (\<lambda>i. 1 / 2), consumed = 0\<rparr>)
   = fst (inversionSampling (map Fin [0, 1, 2]) (map Fin [1, 0, 3]) 2
          \<lparr>stream = (\<lambda>i. if i < 5 then 0 else 1 / 2), consumed = 5\<rparr>)"
proof -
  have h: "\<forall>i<nat 2. stream \<lparr>stream = (\<lambda>i. 1 / 2 :: real), consumed = 0\<rparr>
                          (consumed \<lparr>stream = (\<lambda>i. 1 / 2 :: real), consumed = 0\<rparr> + i)
                      = stream \<lparr>stream = (\<lambda>i. if i < 5 then 0 else 1 / 2), consumed = 5\<rparr>
                          (consumed \<lparr>stream = (\<lambda>i. if i < 5 then 0 else 1 / 2 :: real), consumed = 5\<rparr> + i)"
    by simp
  show ?thesis
    by (rule inversion_deterministic [OF h])
qed

section \<open>The inversion sampler and the arrays of its caller\<close>

lemma inversionSampling_store_extends:
  "\<exists>ext. heap (snd (inversionSampling_store x y n s)) = heap s @ ext"
  by (auto simp: inversionSampling_store_def alloc_def assign_def Let_def
           split: sum.splits prod.splits)

lemma inversionSampling_store_refines:
  assumes x: "x < length (heap s)" and y: "y < length (heap s)"
  shows "(case inversionSampling_store x y n s of
            (Inl e, s') \<Rightarrow> inversionSampling (floats s x) (floats s y) n (gen s) = (Inl e, gen s')
          | (Inr r, s') \<Rightarrow>
              inversionSampling (floats s x) (floats s y) n (gen s) = (Inr (floats s' r), gen s'))"
  using x y
  by (auto simp: inversionSampling_store_def inversionSampling_def cumulative_table_def
        alloc_def assign_def floats_def ints_def nth_append Let_def
        split: sum.splits prod.splits)

text \<open>
  C9. A call of the inversion sampler on the arrays at the addresses x and y leaves
  every array that existed before the call as it was, x and y among them (also when x and
  y are one array): the cumulative table is a new array, the division in place changes
  that array only, and every later step allocates its result.
\<close>

theorem inversion_leaves_inputs_unchanged:
  assumes "x < length (heap s)" and "y < length (heap s)"
  shows "heap (snd (inversionSampling_store x y n s)) ! x = heap s ! x
         \<and> heap (snd (inversionSampling_store x y n s)) ! y = heap s ! y
         \<and> (\<forall>r<length (heap s). heap (snd (inversionSampling_store x y n s)) ! r = heap s ! r)"
proof -
  obtain ext where "heap (snd (inversionSampling_store x y n s)) = heap s @ ext"
    using inversionSampling_store_extends by blast
  then show ?thesis using assms by (simp add: nth_append)
qed

theorem inversion_leaves_inputs_unchanged_witness:
  "(0 :: nat) < length (heap \<lparr>heap = [FloatArray [Fin 0, Fin 1, Fin 2], FloatArray [Fin 1, Fin 0, Fin 3]],
                               gen = \<lparr>stream = (\<lambda>i. real i / 2), consumed = 0\<rparr>\<rparr>)
   \<and> (1 :: nat) < length (heap \<lparr>heap = [FloatArray [Fin 0, Fin 1, Fin 2], FloatArray [Fin 1, Fin 0, Fin 3]],
                               gen = \<lparr>stream = (\<lambda>i. real i / 2), consumed = 0\<rparr>\<rparr>)
   \<and> heap (snd (inversionSampling_store 0 1 2
         \<lparr>heap = [FloatArray [Fin 0, Fin 1, Fin 2], FloatArray [Fin 1, Fin 0, Fin 3]],
          gen = \<lparr>stream = (\<lambda>i. real i / 2), consumed = 0\<rparr>\<rparr>)) ! 0
       = FloatArray [Fin 0, Fin 1, Fin 2]
   \<and> heap (snd (inversionSampling_store 0 1 2
         \<lparr>heap = [FloatArray [Fin 0, Fin 1, Fin 2], FloatArray [Fin 1, Fin 0, Fin 3]],
          gen = \<lparr>stream = (\<lambda>i. real i / 2), consumed = 0\<rparr>\<rparr>)) ! 1
       = FloatArray [Fin 1, Fin 0, Fin 3]"
proof -
  let ?s = "\<lparr>heap = [FloatArray [Fin 0, Fin 1, Fin 2], FloatArray [Fin 1, Fin 0, Fin 3]],
             gen = \<lparr>stream = (\<lambda>i. real i / 2), consumed = 0\<rparr>\<rparr>"
  have h1: "0 < length (heap ?s)" by simp
  have h2: "1 < length (heap ?s)" by simp
  show ?thesis
    using h1 h2 inversion_leaves_inputs_unchanged [OF h1 h2, of 2] by simp
qed

section \<open>The samplers on arrays of any values\<close>

text \<open>
  What the two samplers do on arrays of any length and any values, special values
  included: which exception numpy raises and when, and the shape of what is returned.
\<close>

lemma uniform_negative:
  "n < 0 \<Longrightarrow> isfinite (fsub hi lo) \<Longrightarrow> uniform lo hi n g = (Inl ValueError, g)"
  by (simp add: uniform_def)

lemma trapz_ValueError: "trapz w x = Inl e \<Longrightarrow> e = ValueError"
  by (auto simp: trapz_def broadcast2_def Let_def split: sum.splits if_splits)

lemma length_take_idx_argsort: "length (take_idx a (argsort a)) = length a"
  by (simp add: take_idx_argsort)

lemma uniform_cases:
  "uniform lo hi n g = (Inl OverflowError, g)
   \<or> (n < 0 \<and> uniform lo hi n g = (Inl ValueError, g))
   \<or> (0 \<le> n \<and> (\<exists>us. uniform lo hi n g = (Inr us, g\<lparr>consumed := consumed g + nat n\<rparr>)
                    \<and> length us = nat n))"
  by (auto simp: uniform_def random_sample_def length_next_doubles Let_def)

lemma trapz_total: "length w = length x \<Longrightarrow> \<exists>Z. trapz w x = Inr Z"
  by (simp add: trapz_def broadcast2_def diff_def Let_def)

lemma amin_total: "x \<noteq> [] \<Longrightarrow> \<exists>v. amin x = Inr v"
  by (cases x) (simp_all add: amin_def)

lemma amax_total: "x \<noteq> [] \<Longrightarrow> \<exists>v. amax x = Inr v"
  by (cases x) (simp_all add: amax_def)

lemma amin_empty: "amin [] = Inl ValueError"
  by (simp add: amin_def)

lemma inversionSampling_negative:
  "n < 0 \<Longrightarrow> y \<noteq> [] \<Longrightarrow> inversionSampling x y n g = (Inl ValueError, g)"
proof -
  assume n: "n < 0" and y: "y \<noteq> []"
  obtain T where "cumulative_table y = Inr T" using cumulative_table_length [OF y] by blast
  then show ?thesis
    using n by (simp add: inversionSampling_def uniform_negative isfinite_def)
qed

lemma inversionSampling_mismatch:
  assumes n: "0 \<le> n" and y: "y \<noteq> []" and l: "length x \<noteq> length y"
  shows "inversionSampling x y n g = (Inl ValueError, g\<lparr>consumed := consumed g + nat n\<rparr>)"
proof -
  obtain T where T: "cumulative_table y = Inr T" "length T = length y"
    using cumulative_table_length [OF y] by blast
  have "interp z T x = Inl ValueError" for z
    using l T by (simp add: interp_def)
  then show ?thesis
    using T by (simp add: inversionSampling_def uniform_unit [OF n])
qed

lemma inversionSampling_total:
  assumes n: "0 \<le> n" and y: "y \<noteq> []" and l: "length x = length y"
  shows "\<exists>ss. inversionSampling x y n g = (Inr ss, g\<lparr>consumed := consumed g + nat n\<rparr>)
              \<and> length ss = nat n"
proof -
  obtain T where T: "cumulative_table y = Inr T" "length T = length y"
    using cumulative_table_length [OF y] by blast
  have Tne: "T \<noteq> []" using T y by auto
  obtain r where r: "interp (map Fin (next_doubles g (nat n))) T x = Inr r"
      "length r = length (map Fin (next_doubles g (nat n)))"
    using interp_total [OF Tne, of x] l T by metis
  show ?thesis
    using T r
    by (simp add: inversionSampling_def uniform_unit [OF n] Let_def length_take_idx_argsort
        length_next_doubles)
qed

lemma importanceSampling_negative:
  assumes n: "n < 0"
  shows "\<exists>e. importanceSampling x f w n g = (Inl e, g) \<and> (e = ValueError \<or> e = OverflowError)"
proof (cases "x = []")
  case True
  then show ?thesis by (simp add: importanceSampling_def amin_empty)
next
  case False
  obtain a b where ab: "amin x = Inr a" "amax x = Inr b"
    using amin_total [OF False] amax_total [OF False] by blast
  show ?thesis
  proof (cases "trapz w x")
    case (Inl e)
    then show ?thesis
      using ab trapz_ValueError [OF Inl] by (simp add: importanceSampling_def)
  next
    case (Inr Z)
    then show ?thesis
      using ab n uniform_cases [of a b n g] by (auto simp: importanceSampling_def)
  qed
qed

lemma importanceSampling_mismatch:
  assumes n: "0 \<le> n" and l: "length f \<noteq> length x \<or> length w \<noteq> length x"
  shows "\<exists>e g'. importanceSampling x f w n g = (Inl e, g')
               \<and> (e = ValueError \<or> e = OverflowError)
               \<and> (g' = g \<or> g' = g\<lparr>consumed := consumed g + nat n\<rparr>)"
proof (cases "x = []")
  case True
  then show ?thesis by (simp add: importanceSampling_def amin_empty)
next
  case False
  obtain a b where ab: "amin x = Inr a" "amax x = Inr b"
    using amin_total [OF False] amax_total [OF False] by blast
  show ?thesis
  proof (cases "trapz w x")
    case (Inl e)
    then show ?thesis
      using ab trapz_ValueError [OF Inl] by (simp add: importanceSampling_def)
  next
    case (Inr Z)
    from uniform_cases [of a b n g] n
    consider "uniform a b n g = (Inl OverflowError, g)"
      | us where "uniform a b n g = (Inr us, g\<lparr>consumed := consumed g + nat n\<rparr>)"
      by auto
    then show ?thesis
    proof cases
      case 1
      then show ?thesis using ab Inr by (simp add: importanceSampling_def)
    next
      case (2 us)
      show ?thesis
      proof (cases "length f = length x")
        case False
        then show ?thesis
          using ab Inr 2 interp_mismatch [of f x us] by (simp add: importanceSampling_def)
      next
        case True
        then obtain fi where "interp us x f = Inr fi"
          using interp_total [OF \<open>x \<noteq> []\<close>, of f us] by auto
        moreover have "interp us x w = Inl ValueError"
          using l True interp_mismatch [of w x us] by simp
        ultimately show ?thesis
          using ab Inr 2 by (simp add: importanceSampling_def Let_def)
      qed
    qed
  qed
qed

lemma importanceSampling_total:
  assumes n: "0 \<le> n" and x: "x \<noteq> []" and lf: "length f = length x" and lw: "length w = length x"
  shows "importanceSampling x f w n g = (Inl OverflowError, g)
         \<or> (\<exists>xsample weights nrm fi wi a b.
               importanceSampling x f w n g
                 = (Inr (xsample, weights), g\<lparr>consumed := consumed g + nat n\<rparr>)
               \<and> amin x = Inr a \<and> amax x = Inr b \<and> isfinite (fsub b a)
               \<and> trapz w x = Inr nrm
               \<and> fst (uniform a b n g) = Inr xsample
               \<and> interp xsample x f = Inr fi \<and> interp xsample x w = Inr wi
               \<and> length xsample = nat n \<and> length fi = nat n \<and> length wi = nat n
               \<and> weights = map2 fdiv (map (fmul nrm) fi) wi)"
proof -
  obtain a b where ab: "amin x = Inr a" "amax x = Inr b"
    using amin_total [OF x] amax_total [OF x] by blast
  obtain Z where Z: "trapz w x = Inr Z" using trapz_total [OF lw] by blast
  from uniform_cases [of a b n g] n
  consider "uniform a b n g = (Inl OverflowError, g)"
    | us where "uniform a b n g = (Inr us, g\<lparr>consumed := consumed g + nat n\<rparr>)"
        "length us = nat n" "isfinite (fsub b a)"
    by (auto simp: uniform_def Let_def split: if_splits)
  then show ?thesis
  proof cases
    case 1
    then show ?thesis using ab Z by (simp add: importanceSampling_def)
  next
    case (2 us)
    obtain fi where fi: "interp us x f = Inr fi" "length fi = length us"
      using interp_total [OF x lf, of us] by blast
    obtain wi where wi: "interp us x w = Inr wi" "length wi = length us"
      using interp_total [OF x lw, of us] by blast
    have "broadcast2 fdiv (map (fmul Z) fi) wi = Inr (map2 fdiv (map (fmul Z) fi) wi)"
      using fi wi by (simp add: broadcast2_same)
    then have "importanceSampling x f w n g
                 = (Inr (us, map2 fdiv (map (fmul Z) fi) wi), g\<lparr>consumed := consumed g + nat n\<rparr>)"
      using ab Z 2 fi wi by (simp add: importanceSampling_def Let_def)
    then show ?thesis using ab Z 2 fi wi by auto
  qed
qed

lemma fdiv_zero_not_finite: "\<not> isfinite (fdiv v (Fin 0))"
  by (cases v) (simp_all add: isfinite_def signed_inf_def)

section \<open>The importance samplers on valid tables\<close>

lemma amin_real: "xs \<noteq> [] \<Longrightarrow> amin (map Fin xs) = Inr (Fin (Min (set xs)))"
proof (cases xs)
  case (Cons a as)
  have "Min (set xs) = fold min as a" unfolding Cons by (rule Min.set_eq_fold)
  then show ?thesis by (simp add: amin_def Cons foldl_fminimum)
qed simp

lemma amax_real: "xs \<noteq> [] \<Longrightarrow> amax (map Fin xs) = Inr (Fin (Max (set xs)))"
proof (cases xs)
  case (Cons a as)
  have "Max (set xs) = fold max as a" unfolding Cons by (rule Max.set_eq_fold)
  then show ?thesis by (simp add: amax_def Cons foldl_fmaximum)
qed simp

lemma uniform_real:
  "0 \<le> n \<Longrightarrow> uniform (Fin a) (Fin b) n g
     = (Inr (map Fin (map (\<lambda>u. a + (b - a) * u) (next_doubles g (nat n)))),
        g\<lparr>consumed := consumed g + nat n\<rparr>)"
  by (simp add: uniform_def isfinite_def random_sample_def comp_def)

lemma trapz_real:
  assumes l: "length ws = length xs"
  shows "trapz (map Fin ws) (map Fin xs) = Inr (Fin (trapezoid xs ws))"
proof -
  let ?n = "length xs - 1"
  let ?d = "map2 (-) (tl xs) (butlast xs)"
  let ?s = "map2 (+) (tl ws) (butlast ws)"
  have s: "broadcast2 fadd (tl (map Fin ws)) (butlast (map Fin ws)) = Inr (map Fin ?s)"
  proof -
    have "length (tl (map Fin ws)) = length (butlast (map Fin ws))" by simp
    then show ?thesis
      unfolding map_tl [symmetric] map_butlast [symmetric]
      by (simp only: broadcast2_same map2_fadd)
  qed
  have p: "broadcast2 fmul (map Fin ?d) (map Fin ?s) = Inr (map Fin (map2 (*) ?d ?s))"
  proof -
    have "length (map Fin ?d) = length (map Fin ?s)" using l by simp
    then show ?thesis
      by (simp only: broadcast2_same map2_fmul)
  qed
  have h: "map (\<lambda>v. fdiv v (Fin 2)) (map Fin vs) = map Fin (map (\<lambda>v. v / 2) vs)" for vs
    by simp
  have e: "map (\<lambda>v. v / 2) (map2 (*) ?d ?s)
         = map (\<lambda>i. (xs ! (i + 1) - xs ! i) * (ws ! i + ws ! (i + 1)) / 2) [0..<?n]"
    using l by (intro nth_equalityI) (simp_all add: nth_tl nth_butlast add.commute)
  have "sum_list (map (\<lambda>v. v / 2) (map2 (*) ?d ?s)) = trapezoid xs ws"
    unfolding e trapezoid_def by (simp add: interv_sum_list_conv_sum_set_nat atLeast0LessThan)
  then show ?thesis
    unfolding trapz_def Let_def diff_real
    by (simp only: s p sum.case h fsum_real)
qed

lemma importanceSampling_real:
  assumes x: "sorted_wrt (<) xs" and ne: "xs \<noteq> []"
    and lf: "length fs = length xs" and lw: "length ws = length xs" and n: "0 \<le> n"
  shows "importanceSampling (map Fin xs) (map Fin fs) (map Fin ws) n g
     = (Inr (map Fin (map (\<lambda>u. Min (set xs) + (Max (set xs) - Min (set xs)) * u)
                          (next_doubles g (nat n))),
             map (\<lambda>t. fdiv (Fin (trapezoid xs ws * piecewise_linear xs fs t))
                            (Fin (piecewise_linear xs ws t)))
                 (map (\<lambda>u. Min (set xs) + (Max (set xs) - Min (set xs)) * u)
                      (next_doubles g (nat n)))),
        g\<lparr>consumed := consumed g + nat n\<rparr>)"
proof -
  let ?xk = "map (\<lambda>u. Min (set xs) + (Max (set xs) - Min (set xs)) * u) (next_doubles g (nat n))"
  let ?Z = "trapezoid xs ws"
  have num: "map (fmul (Fin ?Z)) (map Fin (map (piecewise_linear xs fs) ?xk))
           = map (\<lambda>t. Fin (?Z * piecewise_linear xs fs t)) ?xk"
    by simp
  have den: "map Fin (map (piecewise_linear xs ws) ?xk) = map (\<lambda>t. Fin (piecewise_linear xs ws t)) ?xk"
    by simp
  have q: "broadcast2 fdiv (map (\<lambda>t. Fin (?Z * piecewise_linear xs fs t)) ?xk)
                           (map (\<lambda>t. Fin (piecewise_linear xs ws t)) ?xk)
         = Inr (map (\<lambda>t. fdiv (Fin (?Z * piecewise_linear xs fs t)) (Fin (piecewise_linear xs ws t))) ?xk)"
    by (simp add: broadcast2_same zip_map_map zip_same_conv_map comp_def del: fdiv.simps)
  show ?thesis
    unfolding importanceSampling_def amin_real [OF ne] amax_real [OF ne] trapz_real [OF lw]
      sum.case uniform_real [OF n] prod.case interp_strict [OF x ne lf] interp_strict [OF x ne lw]
      Let_def num den q
    by (rule refl)
qed




text \<open>On an empty grid \<^verbatim>\<open>np.amin\<close> raises: there is no min(x) to draw from.\<close>

lemma importanceSampling_empty_grid: "importanceSampling [] f w n g = (Inl ValueError, g)"
  by (simp add: importanceSampling_def amin_def)

text \<open>
  C10. The five-argument sampler never reads its argument f: two calls that differ only
  in f return the same samples, the same weights (or the same error) and leave the random
  source in the same state.
\<close>

theorem importanceSampling5_independent_of_f:
  "importanceSampling5 x y f w n g = importanceSampling5 x y f' w n g"
  unfolding importanceSampling5_def by (rule refl)

section \<open>A density that is zero everywhere\<close>

lemma cumsum_from_zero: "cumsum_from (Fin 0) (replicate k (Fin 0)) = replicate k (Fin 0)"
  by (induction k) simp_all

lemma cumulative_table_zero:
  assumes "0 < m"
  shows "cumulative_table (replicate m (Fin 0)) = Inr (replicate m NaN)"
proof -
  from assms obtain k where m: "m = Suc k" by (cases m) auto
  have c: "cumsum (replicate m (Fin 0)) = replicate m (Fin 0)"
    by (simp add: m cumsum_def cumsum_from_zero)
  have l: "last (replicate m (Fin 0)) = Fin 0" using assms by simp
  show ?thesis
    unfolding cumulative_table_def Let_def c last_item_def
    using assms by (simp add: l idiv_def signed_inf_def)
qed

lemma bisect_NaN:
  "imax \<le> m \<Longrightarrow> bisect (Fin u) (replicate m NaN) imin imax = imin"
proof (induction "imax - imin" arbitrary: imax rule: less_induct)
  case less
  show ?case
  proof (cases "imin < imax")
    case True
    define imid where "imid = imin + (imax - imin) div 2"
    have mid: "imin \<le> imid" "imid < imax" "imid < m"
      using True less.prems by (auto simp: imid_def)
    have "bisect (Fin u) (replicate m NaN) imin imid = imin"
      using less.hyps [of imid] mid by simp
    then show ?thesis
      using True mid
      by (subst bisect.simps) (simp add: imid_def [symmetric] Let_def fge_def feq_def)
  next
    case False
    then show ?thesis by (subst bisect.simps) simp
  qed
qed

lemma bsearch_NaN:
  assumes m: "2 \<le> m"
  shows "\<exists>j. binary_search_with_guess (Fin u) (replicate m NaN) g0 = int j \<and> j + 2 \<le> m"
proof (cases "m \<le> 4")
  case True
  have "linear_search (Fin u) (replicate m NaN) 1 = 1"
    using m by (subst linear_search.simps) (simp add: fge_def feq_def)
  then show ?thesis
    using True m by (simp add: binary_search_with_guess_def fgt_def)
next
  case False
  define guess where
    "guess = nat (if (if int m - 3 < g0 then int m - 3 else g0) < 1 then 1
                  else (if int m - 3 < g0 then int m - 3 else g0))"
  have g: "1 \<le> guess" "guess + 3 \<le> m" using False by (auto simp: guess_def)
  have "binary_search_with_guess (Fin u) (replicate m NaN) g0 = int (guess + 2) - 1"
    using False g
    unfolding binary_search_with_guess_def Let_def length_replicate guess_def [symmetric]
    by (simp add: fgt_def bisect_NaN)
  then show ?thesis using g by (intro exI [of _ "guess + 1"]) simp
qed

lemma interp_at_NaN:
  assumes x: "sorted_wrt (<) xs" and j: "j + 2 \<le> length xs"
  shows "interp_at (Fin u) (replicate (length xs) NaN) (map Fin xs) (int j) = NaN"
proof -
  have "xs ! j < xs ! Suc j"
    using x j by (simp add: sorted_wrt_iff_nth_less)
  then have ne: "xs ! j \<noteq> xs ! Suc j" by simp
  have i: "int j \<noteq> - 1" "int j \<noteq> int (length xs)" "int j \<noteq> int (length xs) - 1"
    using j by linarith+
  show ?thesis
    unfolding interp_at_def Let_def length_replicate
    using j ne by (simp add: i feq_def fsub_def isnan_def)
qed

lemma interp_loop_NaN:
  assumes x: "sorted_wrt (<) xs" and m: "2 \<le> length xs"
  shows "interp_loop (map Fin us) (replicate (length xs) NaN) (map Fin xs) g0
           = replicate (length us) NaN"
proof (induction us arbitrary: g0)
  case Nil
  then show ?case by simp
next
  case (Cons u us)
  obtain j where j: "binary_search_with_guess (Fin u) (replicate (length xs) NaN) g0 = int j"
      "j + 2 \<le> length xs"
    using bsearch_NaN [OF m] by blast
  show ?case
    by (simp add: isnan_def Let_def j(1) interp_at_NaN [OF x j(2)] Cons.IH)
qed

lemma sort_key_NaN: "sort_key sort_rank (replicate k NaN) = replicate k NaN"
  by (rule sort_key_id_if_sorted) (simp add: sorted_replicate)

text \<open>
  C3, as the code has it: the density [0, 0] on the grid [0, 1]. The table is
  [NaN, NaN] and the call returns the sample NaN, without an error.
\<close>

theorem inversion_zero_density_counterexample:
  "cumulative_table [Fin 0, Fin 0] = Inr [NaN, NaN]
   \<and> inversionSampling [Fin 0, Fin 1] [Fin 0, Fin 0] 1 \<lparr>stream = (\<lambda>i. 1 / 2), consumed = 0\<rparr>
       = (Inr [NaN], \<lparr>stream = (\<lambda>i. 1 / 2), consumed = 1\<rparr>)"
  by (simp add: eval_defs)

text \<open>
  C3, amended. For a strictly increasing grid x of length m >= 2, the density y that is
  zero everywhere and n > 0, the sampler raises no error: every entry of the cumulative
  table is NaN, and the call consumes n doubles and returns n samples, each NaN.
\<close>

theorem inversion_zero_density_gives_nan:
  assumes x: "sorted_wrt (<) xs" and m: "2 \<le> length xs" and n: "0 < n"
  shows "cumulative_table (replicate (length xs) (Fin 0)) = Inr (replicate (length xs) NaN)
         \<and> inversionSampling (map Fin xs) (replicate (length xs) (Fin 0)) n g
             = (Inr (replicate (nat n) NaN), g\<lparr>consumed := consumed g + nat n\<rparr>)"
proof -
  have T: "cumulative_table (replicate (length xs) (Fin 0)) = Inr (replicate (length xs) NaN)"
    using m by (intro cumulative_table_zero) linarith
  have U: "uniform (Fin 0) (Fin 1) n g
             = (Inr (map Fin (next_doubles g (nat n))), g\<lparr>consumed := consumed g + nat n\<rparr>)"
    using n by (intro uniform_unit) simp
  have I: "interp (map Fin (next_doubles g (nat n))) (replicate (length xs) NaN) (map Fin xs)
             = Inr (replicate (nat n) NaN)"
  proof -
    have "xs \<noteq> []" "length xs \<noteq> Suc 0" using m by auto
    then show ?thesis
      by (simp add: interp_def interp_loop_NaN [OF x m] length_next_doubles)
  qed
  show ?thesis
    unfolding inversionSampling_def T U
    by (simp add: I take_idx_argsort sort_key_NaN Let_def)
qed

theorem inversion_zero_density_gives_nan_witness:
  "sorted_wrt (<) [0, 1, 2, 3, 4, 5 :: real] \<and> 2 \<le> length [0, 1, 2, 3, 4, 5 :: real]
   \<and> (0 :: int) < 2
   \<and> cumulative_table [Fin 0, Fin 0, Fin 0, Fin 0, Fin 0, Fin 0]
       = Inr [NaN, NaN, NaN, NaN, NaN, NaN]
   \<and> inversionSampling (map Fin [0, 1, 2, 3, 4, 5]) [Fin 0, Fin 0, Fin 0, Fin 0, Fin 0, Fin 0] 2
         \<lparr>stream = (\<lambda>i. 1 / 2), consumed = 0\<rparr>
       = (Inr [NaN, NaN], \<lparr>stream = (\<lambda>i. 1 / 2), consumed = 2\<rparr>)"
proof -
  have h1: "sorted_wrt (<) [0, 1, 2, 3, 4, 5 :: real]" by simp
  have h2: "2 \<le> length [0, 1, 2, 3, 4, 5 :: real]" by simp
  have h3: "(0 :: int) < 2" by simp
  have r6: "replicate (length [0, 1, 2, 3, 4, 5 :: real]) v = [v, v, v, v, v, v]" for v :: npfloat
    by (simp add: numeral_eq_Suc)
  have r2: "replicate (nat 2) v = [v, v]" for v :: npfloat
    by (simp add: numeral_eq_Suc)
  show ?thesis
    using h1 h2 h3
      inversion_zero_density_gives_nan [OF h1 h2 h3, of "\<lparr>stream = (\<lambda>i. 1 / 2), consumed = 0\<rparr>"]
    unfolding r6 r2 by simp
qed

section \<open>A proposal that is zero at a draw\<close>

text \<open>
  C6, as the code has it: a proposal that vanishes on [0, 1] and a draw at 1/2. The
  interpolated proposal is 0 there, the interpolated target is 1, and the sampler
  returns the weight +inf without an error or a flag.
\<close>

theorem importance_zero_proposal_counterexample:
  "interp [Fin (1 / 2)] [Fin 0, Fin 1, Fin 2] [Fin 0, Fin 0, Fin 2] = Inr [Fin 0]
   \<and> interp [Fin (1 / 2)] [Fin 0, Fin 1, Fin 2] [Fin 1, Fin 1, Fin 1] = Inr [Fin 1]
   \<and> importanceSampling [Fin 0, Fin 1, Fin 2] [Fin 1, Fin 1, Fin 1] [Fin 0, Fin 0, Fin 2] 1
         \<lparr>stream = (\<lambda>i. 1 / 4), consumed = 0\<rparr>
       = (Inr ([Fin (1 / 2)], [PInf]), \<lparr>stream = (\<lambda>i. 1 / 4), consumed = 1\<rparr>)"
  by (simp add: eval_defs)

text \<open>
  C6, amended. For a non-empty grid x of finite values of magnitude at most 2^1022 (so
  that max(x) - min(x) is finite), tables f and w of the length of x and n > 0, the
  importance sampler raises nothing and flags nothing: it consumes n doubles and
  returns n draws and n weights, the quotients of Z times the interpolated f by the
  interpolated w. Where the interpolated w of a draw is zero, the weight of that draw is
  that quotient by zero, which is not a finite number: it is +inf, -inf or NaN.
\<close>

theorem importance_zero_proposal_weight:
  assumes ne: "xs \<noteq> []" and bnd: "\<forall>v\<in>set xs. \<bar>v\<bar> \<le> 2 ^ 1022"
    and lf: "length f = length xs" and lw: "length w = length xs" and n: "0 < n"
  shows "\<exists>xsample weights nrm fi wi.
           importanceSampling (map Fin xs) f w n g
             = (Inr (xsample, weights), g\<lparr>consumed := consumed g + nat n\<rparr>)
           \<and> trapz w (map Fin xs) = Inr nrm
           \<and> interp xsample (map Fin xs) f = Inr fi
           \<and> interp xsample (map Fin xs) w = Inr wi
           \<and> length xsample = nat n \<and> length weights = nat n
           \<and> (\<forall>k<nat n. weights ! k = fdiv (fmul nrm (fi ! k)) (wi ! k))
           \<and> (\<forall>k<nat n. wi ! k = Fin 0 \<longrightarrow> \<not> isfinite (weights ! k))"
proof -
  have x: "map Fin xs \<noteq> []" using ne by simp
  have nn: "0 \<le> n" using n by simp
  have fin: "isfinite (fsub (Fin (Max (set xs))) (Fin (Min (set xs))))"
    by (simp add: isfinite_def)
  obtain Z where Z: "trapz w (map Fin xs) = Inr Z"
    using trapz_total [of w "map Fin xs"] lw by auto
  let ?us = "map Fin (map (\<lambda>u. Min (set xs) + (Max (set xs) - Min (set xs)) * u)
                        (next_doubles g (nat n)))"
  have U: "uniform (Fin (Min (set xs))) (Fin (Max (set xs))) n g
             = (Inr ?us, g\<lparr>consumed := consumed g + nat n\<rparr>)"
    by (rule uniform_real [OF nn])
  have lu: "length ?us = nat n" by (simp add: length_next_doubles)
  obtain fi where fi: "interp ?us (map Fin xs) f = Inr fi" "length fi = length ?us"
    using interp_total [OF x, of f ?us] lf by auto
  obtain wi where wi: "interp ?us (map Fin xs) w = Inr wi" "length wi = length ?us"
    using interp_total [OF x, of w ?us] lw by auto
  let ?ws = "map2 fdiv (map (fmul Z) fi) wi"
  have B: "broadcast2 fdiv (map (fmul Z) fi) wi = Inr ?ws"
    using fi wi by (simp add: broadcast2_same)
  have R: "importanceSampling (map Fin xs) f w n g
             = (Inr (?us, ?ws), g\<lparr>consumed := consumed g + nat n\<rparr>)"
    by (simp only: importanceSampling_def amin_real [OF ne] amax_real [OF ne] Z U
          sum.case prod.case fi wi Let_def B)
  have lw': "length ?ws = nat n" using fi wi lu by simp
  have W: "\<forall>k<nat n. ?ws ! k = fdiv (fmul Z (fi ! k)) (wi ! k)"
    using fi wi lu by simp
  have "\<forall>k<nat n. wi ! k = Fin 0 \<longrightarrow> \<not> isfinite (?ws ! k)"
    using W fdiv_zero_not_finite by simp
  with R Z fi wi lu lw' W show ?thesis by blast
qed


theorem importance_zero_proposal_weight_witness:
  "[0, 1, 2 :: real] \<noteq> [] \<and> list_all (\<lambda>v. \<bar>v\<bar> \<le> 2 ^ 1022) [0, 1, 2 :: real]
   \<and> length [Fin 1, Fin 1, Fin 1] = length [0, 1, 2 :: real]
   \<and> length [Fin 0, Fin 0, Fin 2] = length [0, 1, 2 :: real] \<and> (0 :: int) < 1
   \<and> (\<exists>xsample weights wi.
         importanceSampling (map Fin [0, 1, 2]) [Fin 1, Fin 1, Fin 1] [Fin 0, Fin 0, Fin 2] 1
             \<lparr>stream = (\<lambda>i. 1 / 4), consumed = 0\<rparr>
           = (Inr (xsample, weights), \<lparr>stream = (\<lambda>i. 1 / 4), consumed = 1\<rparr>)
         \<and> xsample = [Fin (1 / 2)]
         \<and> interp xsample (map Fin [0, 1, 2]) [Fin 0, Fin 0, Fin 2] = Inr wi
         \<and> wi ! 0 = Fin 0
         \<and> \<not> isfinite (weights ! 0))"
proof -
  let ?g = "\<lparr>stream = (\<lambda>i. 1 / 4 :: real), consumed = 0\<rparr>"
  have h1: "[0, 1, 2 :: real] \<noteq> []" by simp
  have h2: "\<forall>v\<in>set [0, 1, 2 :: real]. \<bar>v\<bar> \<le> 2 ^ 1022" by simp
  have h3: "length [Fin 1, Fin 1, Fin 1] = length [0, 1, 2 :: real]" by simp
  have h4: "length [Fin 0, Fin 0, Fin 2] = length [0, 1, 2 :: real]" by simp
  have h5: "(0 :: int) < 1" by simp
  have R: "importanceSampling (map Fin [0, 1, 2]) [Fin 1, Fin 1, Fin 1] [Fin 0, Fin 0, Fin 2] 1 ?g
             = (Inr ([Fin (1 / 2)], [PInf]), \<lparr>stream = (\<lambda>i. 1 / 4), consumed = 1\<rparr>)"
    by (simp add: eval_defs)
  have W: "interp [Fin (1 / 2)] (map Fin [0, 1, 2]) [Fin 0, Fin 0, Fin 2] = Inr [Fin 0]"
    by (simp add: eval_defs)
  from importance_zero_proposal_weight [OF h1 h2 h3 h4 h5, of ?g]
  obtain xsample weights nrm fi wi where
    r: "importanceSampling (map Fin [0, 1, 2]) [Fin 1, Fin 1, Fin 1] [Fin 0, Fin 0, Fin 2] 1 ?g
          = (Inr (xsample, weights), ?g\<lparr>consumed := consumed ?g + nat 1\<rparr>)"
    and w: "interp xsample (map Fin [0, 1, 2]) [Fin 0, Fin 0, Fin 2] = Inr wi"
    and z: "\<forall>k<nat 1. wi ! k = Fin 0 \<longrightarrow> \<not> isfinite (weights ! k)"
    by blast
  have xs: "xsample = [Fin (1 / 2)]" using r unfolding R by simp
  have wi: "wi = [Fin 0]" using w unfolding xs W by simp
  have z0: "\<not> isfinite (weights ! 0)" using z wi by simp
  have r': "importanceSampling (map Fin [0, 1, 2]) [Fin 1, Fin 1, Fin 1] [Fin 0, Fin 0, Fin 2] 1 ?g
           = (Inr (xsample, weights), \<lparr>stream = (\<lambda>i. 1 / 4), consumed = 1\<rparr>)"
    using r by simp
  have w0: "wi ! 0 = Fin 0" using wi by simp
  have E: "\<exists>xsample weights wi.
         importanceSampling (map Fin [0, 1, 2]) [Fin 1, Fin 1, Fin 1] [Fin 0, Fin 0, Fin 2] 1 ?g
           = (Inr (xsample, weights), \<lparr>stream = (\<lambda>i. 1 / 4), consumed = 1\<rparr>)
         \<and> xsample = [Fin (1 / 2)]
         \<and> interp xsample (map Fin [0, 1, 2]) [Fin 0, Fin 0, Fin 2] = Inr wi
         \<and> wi ! 0 = Fin 0
         \<and> \<not> isfinite (weights ! 0)"
    using r' xs w w0 z0 by (intro exI conjI)
  have L: "list_all (\<lambda>v. \<bar>v\<bar> \<le> 2 ^ 1022) [0, 1, 2 :: real]" by simp
  show ?thesis by (intro conjI h1 L h3 h4 h5 E)
qed

section \<open>Arguments outside the contract\<close>

text \<open>
  C5, as the code has it. The inversion sampler takes a decreasing grid and returns a
  sample; it takes n = 0 and returns no sample; with two lengths that differ it fails, but
  in the interpolation, after the draw is consumed. The importance sampler takes a
  decreasing grid and returns a draw with its weight; it takes n = 0 and returns no draw;
  with a table f shorter than the grid it fails in the interpolation, after the draw is
  consumed.
\<close>

theorem invalid_input_counterexample:
  "inversionSampling [Fin 1, Fin 0] [Fin 1, Fin 1] 1 \<lparr>stream = (\<lambda>i. 1 / 4), consumed = 0\<rparr>
     = (Inr [Fin 1], \<lparr>stream = (\<lambda>i. 1 / 4), consumed = 1\<rparr>)
   \<and> inversionSampling [Fin 0, Fin 1] [Fin 1, Fin 1] 0 \<lparr>stream = (\<lambda>i. 1 / 4), consumed = 0\<rparr>
     = (Inr [], \<lparr>stream = (\<lambda>i. 1 / 4), consumed = 0\<rparr>)
   \<and> inversionSampling [Fin 0, Fin 1, Fin 2] [Fin 1, Fin 1] 1
         \<lparr>stream = (\<lambda>i. 1 / 4), consumed = 0\<rparr>
     = (Inl ValueError, \<lparr>stream = (\<lambda>i. 1 / 4), consumed = 1\<rparr>)
   \<and> importanceSampling [Fin 1, Fin 0] [Fin 1, Fin 1] [Fin 1, Fin 1] 1
         \<lparr>stream = (\<lambda>i. 1 / 4), consumed = 0\<rparr>
     = (Inr ([Fin (1 / 4)], [Fin (- 1)]), \<lparr>stream = (\<lambda>i. 1 / 4), consumed = 1\<rparr>)
   \<and> importanceSampling [Fin 0, Fin 1] [Fin 1, Fin 1] [Fin 1, Fin 1] 0
         \<lparr>stream = (\<lambda>i. 1 / 4), consumed = 0\<rparr>
     = (Inr ([], []), \<lparr>stream = (\<lambda>i. 1 / 4), consumed = 0\<rparr>)
   \<and> importanceSampling [Fin 0, Fin 1, Fin 2] [Fin 1, Fin 1] [Fin 1, Fin 1, Fin 1] 1
         \<lparr>stream = (\<lambda>i. 1 / 4), consumed = 0\<rparr>
     = (Inl ValueError, \<lparr>stream = (\<lambda>i. 1 / 4), consumed = 1\<rparr>)"
  by (simp add: eval_defs)

text \<open>
  C5, amended. Neither sampler checks its arguments, and what fails fails with an
  exception of numpy. For arrays of any values:
  \<^item> a negative n fails before any double is consumed: the inversion sampler (y not empty)
    with ValueError, the importance sampler with ValueError or OverflowError;
  \<^item> lengths that differ fail: the inversion sampler (y not empty, n not negative) with
    ValueError after n doubles are consumed, the importance sampler with ValueError or
    OverflowError, before any double is consumed or after n are;
  \<^item> tables of one length, not empty, and n not negative are accepted whatever the order
    of the grid: the inversion sampler consumes n doubles and returns n samples; the
    importance sampler does so with n draws and n weights, unless \<^verbatim>\<open>uniform\<close> finds
    max(x) - min(x) not finite and raises OverflowError before any double is consumed.
\<close>

theorem invalid_input_handling:
  "(n < 0 \<and> y \<noteq> [] \<longrightarrow> inversionSampling x y n g = (Inl ValueError, g))
   \<and> (n < 0 \<longrightarrow> (\<exists>e. importanceSampling x f w n g = (Inl e, g)
                        \<and> (e = ValueError \<or> e = OverflowError)))
   \<and> (0 \<le> n \<and> y \<noteq> [] \<and> length x \<noteq> length y
        \<longrightarrow> inversionSampling x y n g = (Inl ValueError, g\<lparr>consumed := consumed g + nat n\<rparr>))
   \<and> (0 \<le> n \<and> (length f \<noteq> length x \<or> length w \<noteq> length x)
        \<longrightarrow> (\<exists>e g'. importanceSampling x f w n g = (Inl e, g')
                      \<and> (e = ValueError \<or> e = OverflowError)
                      \<and> (g' = g \<or> g' = g\<lparr>consumed := consumed g + nat n\<rparr>)))
   \<and> (0 \<le> n \<and> y \<noteq> [] \<and> length x = length y
        \<longrightarrow> (\<exists>ss. inversionSampling x y n g = (Inr ss, g\<lparr>consumed := consumed g + nat n\<rparr>)
                   \<and> length ss = nat n))
   \<and> (0 \<le> n \<and> x \<noteq> [] \<and> length f = length x \<and> length w = length x
        \<longrightarrow> (importanceSampling x f w n g = (Inl OverflowError, g)
             \<or> (\<exists>xsample weights.
                   importanceSampling x f w n g
                     = (Inr (xsample, weights), g\<lparr>consumed := consumed g + nat n\<rparr>)
                   \<and> length xsample = nat n \<and> length weights = nat n)))"
proof (intro conjI impI)
  assume "n < 0 \<and> y \<noteq> []"
  then show "inversionSampling x y n g = (Inl ValueError, g)"
    by (simp add: inversionSampling_negative)
next
  assume "n < 0"
  then show "\<exists>e. importanceSampling x f w n g = (Inl e, g) \<and> (e = ValueError \<or> e = OverflowError)"
    by (rule importanceSampling_negative)
next
  assume "0 \<le> n \<and> y \<noteq> [] \<and> length x \<noteq> length y"
  then show "inversionSampling x y n g = (Inl ValueError, g\<lparr>consumed := consumed g + nat n\<rparr>)"
    by (simp add: inversionSampling_mismatch)
next
  assume "0 \<le> n \<and> (length f \<noteq> length x \<or> length w \<noteq> length x)"
  then show "\<exists>e g'. importanceSampling x f w n g = (Inl e, g')
               \<and> (e = ValueError \<or> e = OverflowError)
               \<and> (g' = g \<or> g' = g\<lparr>consumed := consumed g + nat n\<rparr>)"
    using importanceSampling_mismatch [of n f x w g] by blast
next
  assume "0 \<le> n \<and> y \<noteq> [] \<and> length x = length y"
  then show "\<exists>ss. inversionSampling x y n g = (Inr ss, g\<lparr>consumed := consumed g + nat n\<rparr>)
                \<and> length ss = nat n"
    using inversionSampling_total [of n y x g] by blast
next
  assume a: "0 \<le> n \<and> x \<noteq> [] \<and> length f = length x \<and> length w = length x"
  have "importanceSampling x f w n g = (Inl OverflowError, g)
         \<or> (\<exists>xsample weights nrm fi wi a b.
               importanceSampling x f w n g
                 = (Inr (xsample, weights), g\<lparr>consumed := consumed g + nat n\<rparr>)
               \<and> amin x = Inr a \<and> amax x = Inr b \<and> isfinite (fsub b a)
               \<and> trapz w x = Inr nrm
               \<and> fst (uniform a b n g) = Inr xsample
               \<and> interp xsample x f = Inr fi \<and> interp xsample x w = Inr wi
               \<and> length xsample = nat n \<and> length fi = nat n \<and> length wi = nat n
               \<and> weights = map2 fdiv (map (fmul nrm) fi) wi)"
    using a by (intro importanceSampling_total) simp_all
  then show "importanceSampling x f w n g = (Inl OverflowError, g)
             \<or> (\<exists>xsample weights.
                   importanceSampling x f w n g
                     = (Inr (xsample, weights), g\<lparr>consumed := consumed g + nat n\<rparr>)
                   \<and> length xsample = nat n \<and> length weights = nat n)"
    by auto
qed

theorem invalid_input_handling_witness:
  "inversionSampling [Fin 0, Fin 1] [Fin 1, Fin 1] (- 1) \<lparr>stream = (\<lambda>i. 1 / 4), consumed = 0\<rparr>
     = (Inl ValueError, \<lparr>stream = (\<lambda>i. 1 / 4), consumed = 0\<rparr>)
   \<and> (\<exists>e. importanceSampling [Fin 0, Fin 1] [Fin 1, Fin 1] [Fin 1, Fin 1] (- 1)
              \<lparr>stream = (\<lambda>i. 1 / 4), consumed = 0\<rparr>
            = (Inl e, \<lparr>stream = (\<lambda>i. 1 / 4), consumed = 0\<rparr>)
          \<and> (e = ValueError \<or> e = OverflowError))
   \<and> inversionSampling [Fin 0, Fin 1, Fin 2] [Fin 1, Fin 1] 1
         \<lparr>stream = (\<lambda>i. 1 / 4), consumed = 0\<rparr>
     = (Inl ValueError, \<lparr>stream = (\<lambda>i. 1 / 4), consumed = 1\<rparr>)
   \<and> (\<exists>e g'. importanceSampling [Fin 0, Fin 1, Fin 2] [Fin 1, Fin 1] [Fin 1, Fin 1, Fin 1] 1
                \<lparr>stream = (\<lambda>i. 1 / 4), consumed = 0\<rparr>
              = (Inl e, g')
            \<and> (e = ValueError \<or> e = OverflowError)
            \<and> (g' = \<lparr>stream = (\<lambda>i. 1 / 4), consumed = 0\<rparr>
                 \<or> g' = \<lparr>stream = (\<lambda>i. 1 / 4), consumed = 1\<rparr>))
   \<and> (\<exists>ss. inversionSampling [Fin 1, Fin 0] [Fin 1, Fin 1] 1
                \<lparr>stream = (\<lambda>i. 1 / 4), consumed = 0\<rparr>
              = (Inr ss, \<lparr>stream = (\<lambda>i. 1 / 4), consumed = 1\<rparr>) \<and> length ss = 1)
   \<and> (importanceSampling [Fin 1, Fin 0] [Fin 1, Fin 1] [Fin 1, Fin 1] 1
         \<lparr>stream = (\<lambda>i. 1 / 4), consumed = 0\<rparr>
       = (Inl OverflowError, \<lparr>stream = (\<lambda>i. 1 / 4), consumed = 0\<rparr>)
      \<or> (\<exists>xsample weights.
            importanceSampling [Fin 1, Fin 0] [Fin 1, Fin 1] [Fin 1, Fin 1] 1
                \<lparr>stream = (\<lambda>i. 1 / 4), consumed = 0\<rparr>
              = (Inr (xsample, weights), \<lparr>stream = (\<lambda>i. 1 / 4), consumed = 1\<rparr>)
            \<and> length xsample = 1 \<and> length weights = 1))"
proof -
  let ?g = "\<lparr>stream = (\<lambda>i. 1 / 4 :: real), consumed = 0\<rparr>"
  have a: "(- 1 :: int) < 0 \<and> [Fin 1, Fin 1] \<noteq> []" by simp
  have b: "(- 1 :: int) < 0" by simp
  have c: "(0 :: int) \<le> 1 \<and> [Fin 1, Fin 1] \<noteq> []
             \<and> length [Fin 0, Fin 1, Fin 2] \<noteq> length [Fin 1, Fin 1]"
    by simp
  have d: "(0 :: int) \<le> 1 \<and> (length [Fin 1, Fin 1] \<noteq> length [Fin 0, Fin 1, Fin 2]
             \<or> length [Fin 1, Fin 1, Fin 1] \<noteq> length [Fin 0, Fin 1, Fin 2])"
    by simp
  have e: "(0 :: int) \<le> 1 \<and> [Fin 1, Fin 1] \<noteq> [] \<and> length [Fin 1, Fin 0] = length [Fin 1, Fin 1]"
    by simp
  have f: "(0 :: int) \<le> 1 \<and> [Fin 1, Fin 0] \<noteq> [] \<and> length [Fin 1, Fin 1] = length [Fin 1, Fin 0]
             \<and> length [Fin 1, Fin 1] = length [Fin 1, Fin 0]"
    by simp
  note A = invalid_input_handling [of "- 1" "[Fin 1, Fin 1]" "[Fin 0, Fin 1]" ?g "[Fin 1, Fin 1]" "[Fin 1, Fin 1]"]
  note C = invalid_input_handling [of 1 "[Fin 1, Fin 1]" "[Fin 0, Fin 1, Fin 2]" ?g "[Fin 1, Fin 1]" "[Fin 1, Fin 1, Fin 1]"]
  note E = invalid_input_handling [of 1 "[Fin 1, Fin 1]" "[Fin 1, Fin 0]" ?g "[Fin 1, Fin 1]" "[Fin 1, Fin 1]"]
  have 1: "inversionSampling [Fin 0, Fin 1] [Fin 1, Fin 1] (- 1) ?g = (Inl ValueError, ?g)"
    using a A by blast
  have 2: "\<exists>e. importanceSampling [Fin 0, Fin 1] [Fin 1, Fin 1] [Fin 1, Fin 1] (- 1) ?g = (Inl e, ?g)
          \<and> (e = ValueError \<or> e = OverflowError)"
    using b A by blast
  have 3: "inversionSampling [Fin 0, Fin 1, Fin 2] [Fin 1, Fin 1] 1 ?g
             = (Inl ValueError, ?g\<lparr>consumed := consumed ?g + nat 1\<rparr>)"
    using c C by blast
  have 4: "\<exists>e g'. importanceSampling [Fin 0, Fin 1, Fin 2] [Fin 1, Fin 1] [Fin 1, Fin 1, Fin 1] 1 ?g
              = (Inl e, g')
            \<and> (e = ValueError \<or> e = OverflowError)
            \<and> (g' = ?g \<or> g' = ?g\<lparr>consumed := consumed ?g + nat 1\<rparr>)"
    using d C by blast
  have 5: "\<exists>ss. inversionSampling [Fin 1, Fin 0] [Fin 1, Fin 1] 1 ?g
                 = (Inr ss, ?g\<lparr>consumed := consumed ?g + nat 1\<rparr>) \<and> length ss = nat 1"
    using e E by blast
  have 6: "importanceSampling [Fin 1, Fin 0] [Fin 1, Fin 1] [Fin 1, Fin 1] 1 ?g
             = (Inl OverflowError, ?g)
      \<or> (\<exists>xsample weights.
            importanceSampling [Fin 1, Fin 0] [Fin 1, Fin 1] [Fin 1, Fin 1] 1 ?g
              = (Inr (xsample, weights), ?g\<lparr>consumed := consumed ?g + nat 1\<rparr>)
            \<and> length xsample = nat 1 \<and> length weights = nat 1)"
    using f E by blast
  from 1 2 3 4 5 6 show ?thesis by simp
qed

end
